theory Spec2Isabelle
  imports Complex_Main "HOL-Library.AList" "HOL-Library.Product_Lexorder"
begin

section \<open>The city grid and its tower registry\<close>

text \<open>
  The class \<^verbatim>\<open>CityGrid\<close> of \<^verbatim>\<open>main.py\<close> holds the grid extents \<^verbatim>\<open>n\<close> and
  \<^verbatim>\<open>m\<close>, the boolean matrix \<^verbatim>\<open>grid\<close> (true = buildable) and the list \<^verbatim>\<open>towers\<close>
  of triples \<^verbatim>\<open>(x, y, range)\<close>. Python integers are unbounded, hence \<open>int\<close>.
  A method that mutates \<^verbatim>\<open>self\<close> takes the object and returns the new one; an
  exception that leaves the method is the left summand of the result.
\<close>

type_synonym tower = "int \<times> int \<times> int"

datatype error =
  IndexError | UnboundLocalError | KeyError | NodeNotFound | NetworkXNoPath | ValueError

record CityGrid =
  n :: int
  m :: int
  grid :: "bool list list"
  towers :: "tower list"

text \<open>
  Indexing an array with an integer: an index below zero counts from the end, an index
  outside \<^verbatim>\<open>[-len, len)\<close> raises \<^verbatim>\<open>IndexError\<close>.
\<close>

definition np_index :: "'a list \<Rightarrow> int \<Rightarrow> error + 'a" where
  "np_index xs i =
     (if 0 \<le> i \<and> i < int (length xs) then Inr (xs ! nat i)
      else if - int (length xs) \<le> i \<and> i < 0 then Inr (xs ! nat (int (length xs) + i))
      else Inl IndexError)"

text \<open>\<^verbatim>\<open>self.grid[x][y]\<close>: the row first, then the cell.\<close>

definition grid_at :: "bool list list \<Rightarrow> int \<Rightarrow> int \<Rightarrow> error + bool" where
  "grid_at g x y = (case np_index g x of Inl e \<Rightarrow> Inl e | Inr row \<Rightarrow> np_index row y)"

text \<open>
  \<^verbatim>\<open>__init__(self, n, m, obstructed_probability)\<close>. The matrix is drawn inside the
  constructor: \<^verbatim>\<open>np.random.rand(n, m) > obstructed_probability\<close>. The draw of the
  random generator (an \<open>n \<times> m\<close> array of samples from \<open>[0, 1)\<close>) is the argument
  \<open>rand\<close> of the model; the comparison is taken cell by cell.
\<close>

definition CityGrid_init :: "int \<Rightarrow> int \<Rightarrow> real \<Rightarrow> real list list \<Rightarrow> CityGrid" where
  "CityGrid_init n0 m0 obstructed_probability rand =
     \<lparr>n = n0, m = m0,
      grid = map (map (\<lambda>u. u > obstructed_probability)) rand,
      towers = []\<rparr>"

text \<open>
  \<^verbatim>\<open>place_tower(self, x, y, range)\<close>. The conjunction is evaluated left to right and
  stops at the first false conjunct, so the grid is read only after both bounds tests.
\<close>

definition place_tower :: "CityGrid \<Rightarrow> int \<Rightarrow> int \<Rightarrow> int \<Rightarrow> error + CityGrid" where
  "place_tower c x y r =
     (if 0 \<le> x \<and> x < n c \<and> 0 \<le> y \<and> y < m c then
        (case grid_at (grid c) x y of
           Inl e \<Rightarrow> Inl e
         | Inr b \<Rightarrow> if b then Inr (c\<lparr>towers := towers c @ [(x, y, r)]\<rparr>) else Inr c)
      else Inr c)"

text \<open>
  The shape the constructor gives every object: \<open>grid\<close> is an \<open>n \<times> m\<close> matrix.
\<close>

definition wf_city :: "CityGrid \<Rightarrow> bool" where
  "wf_city c =
     (0 \<le> n c \<and> 0 \<le> m c \<and> int (length (grid c)) = n c \<and>
      list_all (\<lambda>row. int (length row) = m c) (grid c))"


section \<open>The placement optimizer\<close>

text \<open>
  A tower type is a dictionary with the keys \<^verbatim>\<open>'range'\<close>, \<^verbatim>\<open>'coverage'\<close> and
  \<^verbatim>\<open>'cost'\<close> (the field of the range is called \<open>range_tt\<close>, since \<open>range\<close> is taken).
\<close>

record tower_type =
  range_tt :: int
  coverage :: int
  cost :: int

text \<open>
  The local variables of \<^verbatim>\<open>optimize_tower_placement\<close> that one scan of the grid
  reads and writes. \<^verbatim>\<open>distance\<close> is assigned only inside the loop over the towers;
  until that loop has run once it is unbound (\<open>None\<close>), and reading it then raises
  \<^verbatim>\<open>UnboundLocalError\<close>. It is a local of the whole method, so a binding survives
  from one scan to the next and from one tower type to the next.
\<close>

record scan_locals =
  best_tower :: "(int \<times> int) option"
  best_coverage :: int
  best_distance :: int
  distance :: "int option"

text \<open>A \<^verbatim>\<open>for\<close> loop over a list whose body may raise: the first exception ends it.\<close>

fun for_loop :: "('a \<Rightarrow> 's \<Rightarrow> error + 's) \<Rightarrow> 'a list \<Rightarrow> 's \<Rightarrow> error + 's" where
  "for_loop body [] s = Inr s"
| "for_loop body (x # xs) s =
     (case body x s of Inl e \<Rightarrow> Inl e | Inr s' \<Rightarrow> for_loop body xs s')"

text \<open>
  Lines 82 to 87: the loop over \<^verbatim>\<open>self.towers\<close> for one cell \<open>(x, y)\<close>. It carries
  \<^verbatim>\<open>total_coverage\<close> and the binding of \<^verbatim>\<open>distance\<close>.
\<close>

fun coverage_loop :: "int \<Rightarrow> int \<Rightarrow> tower list \<Rightarrow> int \<times> int option \<Rightarrow> int \<times> int option" where
  "coverage_loop x y [] acc = acc"
| "coverage_loop x y ((tx, ty, trange) # ts) (total_coverage, dv) =
     (let d = (x - tx)^2 + (y - ty)^2 in
      coverage_loop x y ts
        (if d \<le> trange^2 then total_coverage + 1 else total_coverage, Some d))"

text \<open>
  Lines 81 to 92: the body of the two loops over the cells. \<^verbatim>\<open>total_coverage\<close>
  starts at 0 for every passable cell; the assignment \<^verbatim>\<open>best_distance = distance\<close>
  reads \<^verbatim>\<open>distance\<close>.
\<close>

definition scan_cell ::
  "CityGrid \<Rightarrow> tower_type \<Rightarrow> int \<Rightarrow> int \<Rightarrow> scan_locals \<Rightarrow> error + scan_locals" where
  "scan_cell c tt x y s =
     (case grid_at (grid c) x y of
        Inl e \<Rightarrow> Inl e
      | Inr passable \<Rightarrow>
          if passable then
            (case coverage_loop x y (towers c) (0, distance s) of
               (total_coverage, dv) \<Rightarrow>
                 if total_coverage = 0 \<and> coverage tt > best_coverage s then
                   (case dv of
                      None \<Rightarrow> Inl UnboundLocalError
                    | Some d \<Rightarrow>
                        Inr (s\<lparr>best_tower := Some (x, y), best_coverage := coverage tt,
                               best_distance := d, distance := dv\<rparr>))
                 else Inr (s\<lparr>distance := dv\<rparr>))
          else Inr s)"

text \<open>
  Lines 79 and 80: \<^verbatim>\<open>for x in range(self.n): for y in range(self.m)\<close>;
  \<^verbatim>\<open>range(k)\<close> is the list \<open>[0..k - 1]\<close>, empty when \<open>k \<le> 0\<close>.
\<close>

definition scan :: "CityGrid \<Rightarrow> tower_type \<Rightarrow> scan_locals \<Rightarrow> error + scan_locals" where
  "scan c tt = for_loop (\<lambda>x. for_loop (\<lambda>y. scan_cell c tt x y) [0..m c - 1]) [0..n c - 1]"

text \<open>
  Lines 74 to 99: the \<^verbatim>\<open>while\<close> loop of one tower type. Nothing in its text bounds
  the number of its rounds, so it is a partial function: \<open>None\<close> stands for a loop that
  never ends. The result carries the object and the binding of \<^verbatim>\<open>distance\<close>.
\<close>

partial_function (option) place_while ::
  "CityGrid \<Rightarrow> tower_type \<Rightarrow> int \<Rightarrow> int option \<Rightarrow> (error + CityGrid \<times> int option) option" where
  "place_while c tt remaining_budget dv =
     (if remaining_budget \<ge> cost tt then
        (case scan c tt \<lparr>best_tower = None, best_coverage = 0, best_distance = 0,
                          distance = dv\<rparr> of
           Inl e \<Rightarrow> Some (Inl e)
         | Inr s \<Rightarrow>
            (case best_tower s of
               Some (x, y) \<Rightarrow>
                 (case place_tower c x y (range_tt tt) of
                    Inl e \<Rightarrow> Some (Inl e)
                  | Inr c' \<Rightarrow> place_while c' tt (remaining_budget - cost tt) (distance s))
             | None \<Rightarrow> Some (Inr (c, distance s))))
      else Some (Inr (c, dv)))"

declare place_while.simps [code]

text \<open>
  Lines 72 and 73: the loop over the tower types; every type starts from the whole
  budget.
\<close>

fun type_loop ::
  "int \<Rightarrow> tower_type list \<Rightarrow> CityGrid \<times> int option \<Rightarrow> (error + CityGrid \<times> int option) option" where
  "type_loop budget [] cd = Some (Inr cd)"
| "type_loop budget (tt # tts) (c, dv) =
     (case place_while c tt budget dv of
        None \<Rightarrow> None
      | Some (Inl e) \<Rightarrow> Some (Inl e)
      | Some (Inr cd') \<Rightarrow> type_loop budget tts cd')"

text \<open>
  \<^verbatim>\<open>optimize_tower_placement(self, budget, tower_types)\<close>: on entry \<^verbatim>\<open>distance\<close> is
  unbound.
\<close>

definition optimize_tower_placement ::
  "CityGrid \<Rightarrow> int \<Rightarrow> tower_type list \<Rightarrow> (error + CityGrid) option" where
  "optimize_tower_placement c budget tower_types =
     (case type_loop budget tower_types (c, None) of
        None \<Rightarrow> None
      | Some (Inl e) \<Rightarrow> Some (Inl e)
      | Some (Inr (c', dv)) \<Rightarrow> Some (Inr c'))"

subsection \<open>The optimizer in the words of the specification\<close>

text \<open>
  \<open>coverageCount\<close>: the number of towers of the registry that have the cell within
  squared distance \<open>range\<^sup>2\<close>. A cell qualifies when it is passable and its count is 0;
  \<open>first_uncovered\<close> is the first qualifying cell in row-major order
  (\<open>x\<close> from 0 to \<open>n - 1\<close>, then \<open>y\<close> from 0 to \<open>m - 1\<close>).
\<close>

definition coverageCount :: "tower list \<Rightarrow> int \<Rightarrow> int \<Rightarrow> nat" where
  "coverageCount ts x y =
     length (filter (\<lambda>(tx, ty, trange). (x - tx)^2 + (y - ty)^2 \<le> trange^2) ts)"

definition uncovered :: "CityGrid \<Rightarrow> int \<times> int \<Rightarrow> bool" where
  "uncovered c = (\<lambda>(x, y). grid c ! nat x ! nat y \<and> coverageCount (towers c) x y = 0)"

definition first_uncovered :: "CityGrid \<Rightarrow> (int \<times> int) option" where
  "first_uncovered c = find (uncovered c) (List.product [0..n c - 1] [0..m c - 1])"

text \<open>
  The loop of one tower type as section 4.3 of the specification words it, with the one
  condition the source adds: the coverage score of the type has to be positive. While
  the remaining budget covers the cost, a tower with the range of the type goes on the
  first qualifying cell; the loop ends when there is none.
\<close>

function spec_place :: "CityGrid \<Rightarrow> tower_type \<Rightarrow> int \<Rightarrow> CityGrid" where
  "spec_place c tt remaining =
     (if cost tt \<le> remaining \<and> 0 < coverage tt then
        (case first_uncovered c of
           None \<Rightarrow> c
         | Some (x, y) \<Rightarrow>
             spec_place (c\<lparr>towers := towers c @ [(x, y, range_tt tt)]\<rparr>) tt (remaining - cost tt))
      else c)"
  by pat_completeness auto

definition spec_optimize :: "CityGrid \<Rightarrow> int \<Rightarrow> tower_type list \<Rightarrow> CityGrid" where
  "spec_optimize c budget tower_types = fold (\<lambda>tt c'. spec_place c' tt budget) tower_types c"


section \<open>The connectivity graph and the path query\<close>

subsection \<open>The graph library\<close>

text \<open>
  \<^verbatim>\<open>find_reliable_path\<close> builds an \<^verbatim>\<open>nx.Graph\<close> and queries it with
  \<^verbatim>\<open>nx.shortest_path\<close>. The library (networkx) is a dependency of the repository and
  its code is not among the sources of the repository; the entry points the method uses
  (\<^verbatim>\<open>Graph.add_edge\<close>, \<^verbatim>\<open>shortest_path\<close> and, behind it, \<^verbatim>\<open>bidirectional_dijkstra\<close>)
  are modelled here on the library's published source, statement by statement.

  A graph is the adjacency dictionary of the library: node to (neighbour to weight), both
  levels in insertion order. A node exists only as a key of the outer dictionary.
\<close>

type_synonym 'a graph = "('a \<times> ('a \<times> int) list) list"

definition add_node :: "'a \<Rightarrow> 'a graph \<Rightarrow> 'a graph" where
  "add_node u G = (case map_of G u of None \<Rightarrow> G @ [(u, [])] | Some nbrs \<Rightarrow> G)"

definition adj :: "'a graph \<Rightarrow> 'a \<Rightarrow> ('a \<times> int) list" where
  "adj G u = (case map_of G u of None \<Rightarrow> [] | Some nbrs \<Rightarrow> nbrs)"

text \<open>
  \<^verbatim>\<open>G.add_edge(u, v, weight=w)\<close>: both end points become nodes if they are not yet,
  then the weight is stored under \<open>u\<close> for \<open>v\<close> and under \<open>v\<close> for \<open>u\<close>; a weight
  already there is overwritten.
\<close>

definition add_edge :: "'a \<Rightarrow> 'a \<Rightarrow> int \<Rightarrow> 'a graph \<Rightarrow> 'a graph" where
  "add_edge u v weight G =
     (let G1 = add_node u G;
          G2 = add_node v G1;
          G3 = AList.update u (AList.update v weight (adj G2 u)) G2
      in AList.update v (AList.update u weight (adj G3 v)) G3)"

text \<open>\<^verbatim>\<open>u in G\<close> and \<^verbatim>\<open>G[u][v]['weight']\<close> (\<open>None\<close> when there is no such edge).\<close>

definition has_node :: "'a graph \<Rightarrow> 'a \<Rightarrow> bool" where
  "has_node G u = (map_of G u \<noteq> None)"

definition get_weight :: "'a graph \<Rightarrow> 'a \<Rightarrow> 'a \<Rightarrow> int option" where
  "get_weight G u v = (case map_of G u of None \<Rightarrow> None | Some nbrs \<Rightarrow> map_of nbrs v)"

text \<open>
  The weighted query between two given nodes is answered by the library's
  \<^verbatim>\<open>bidirectional_dijkstra\<close>: one Dijkstra search grows from the source and one from the
  target, a step of the one after a step of the other, until some node is finished by
  both. Every list of two of the routine, indexed by \<^verbatim>\<open>dir\<close>, is a function of the
  direction here: \<open>False\<close> is \<^verbatim>\<open>dir == 0\<close>, the search from the source, \<open>True\<close> is
  \<^verbatim>\<open>dir == 1\<close>, the search from the target, and \<^verbatim>\<open>1 - dir\<close> is \<open>\<not> dir\<close>.

  \<open>dists\<close> maps the finished nodes of a direction to their distances, \<open>seen\<close> the
  reached ones to the best distance found so far, \<open>paths\<close> to the path that realises it;
  \<open>fringe\<close> is the heap of the direction, of triples (distance, counter, node), and the
  one \<open>counter\<close> numbers the pushes of both directions so that two triples never compare
  by their nodes. \<open>finaldist\<close> and \<open>finalpath\<close> hold the best path found so far between
  source and target; \<open>finaldist\<close> is not assigned (\<open>None\<close>) before the first such path.
  Where a release of the library records the predecessor of a reached node in place of
  its whole path, the path it builds from the predecessors is the one kept here.
\<close>

record 'a bidir =
  dists :: "bool \<Rightarrow> 'a \<rightharpoonup> int"
  seen :: "bool \<Rightarrow> 'a \<rightharpoonup> int"
  paths :: "bool \<Rightarrow> 'a \<rightharpoonup> 'a list"
  fringe :: "bool \<Rightarrow> (int \<times> nat \<times> 'a) list"
  counter :: nat
  finaldist :: "int option"
  finalpath :: "'a list"
  dir :: bool

text \<open>\<^verbatim>\<open>heappop\<close>: the least triple, by distance and then by counter, leaves the heap.\<close>

definition heappop ::
  "(int \<times> nat \<times> 'a) list \<Rightarrow> (int \<times> nat \<times> 'a) \<times> (int \<times> nat \<times> 'a) list" where
  "heappop h = (let e = arg_min_list (\<lambda>(d, k, v). (d, k)) h in (e, remove1 e h))"

text \<open>
  \<^verbatim>\<open>if w in seen[0] and w in seen[1]:\<close> the node \<open>w\<close> is reached from both ends, so the
  two paths to it join to a path from source to target of weight \<open>totaldist\<close>. It
  replaces the best path so far when there is none yet or when it is strictly shorter:
  \<^verbatim>\<open>finalpath = paths[0][w] + revpath[1:]\<close>, \<open>revpath\<close> the reversed \<^verbatim>\<open>paths[1][w]\<close>.
\<close>

definition meet :: "'a \<Rightarrow> 'a bidir \<Rightarrow> error + 'a bidir" where
  "meet w s =
     (case seen s False w of
        None \<Rightarrow> Inr s
      | Some d0 \<Rightarrow>
         (case seen s True w of
            None \<Rightarrow> Inr s
          | Some d1 \<Rightarrow>
             let totaldist = d0 + d1;
                 better = (case paths s True w of
                             None \<Rightarrow> Inl KeyError
                           | Some p1 \<Rightarrow>
                              (case paths s False w of
                                 None \<Rightarrow> Inl KeyError
                               | Some p0 \<Rightarrow>
                                   Inr (s\<lparr>finaldist := Some totaldist,
                                          finalpath := p0 @ tl (rev p1)\<rparr>)))
             in if finalpath s = [] then better
                else (case finaldist s of
                        None \<Rightarrow> Inl UnboundLocalError
                      | Some fd \<Rightarrow> if fd > totaldist then better else Inr s)))"

text \<open>
  The body of the loop over the neighbours \<open>w\<close> of the node \<open>v\<close> just finished in the
  direction \<open>dir\<close>. A shorter way to a finished node is the library's
  \<^verbatim>\<open>ValueError('Contradictory paths found: negative weights?')\<close>; a node not reached
  before, or reached on a longer way, is relaxed: recorded, pushed, given its path, and
  then tested for a meeting of the two searches. Every edge of the graph carries its
  \<^verbatim>\<open>weight\<close>, so the cost of an edge is never \<^verbatim>\<open>None\<close>, and the graph is undirected,
  so both directions read the same adjacency dictionary.
\<close>

definition relax :: "'a \<Rightarrow> 'a \<times> int \<Rightarrow> 'a bidir \<Rightarrow> error + 'a bidir" where
  "relax v wc s =
     (case wc of (w, cost_vw) \<Rightarrow>
        (case dists s (dir s) v of
           None \<Rightarrow> Inl KeyError
         | Some dv \<Rightarrow>
            let vwLength = dv + cost_vw in
            (case dists s (dir s) w of
               Some dw \<Rightarrow> if vwLength < dw then Inl ValueError else Inr s
             | None \<Rightarrow>
                if (case seen s (dir s) w of None \<Rightarrow> True | Some sw \<Rightarrow> vwLength < sw) then
                  (case paths s (dir s) v of
                     None \<Rightarrow> Inl KeyError
                   | Some pv \<Rightarrow>
                      meet w
                        (s\<lparr>seen := (seen s)(dir s := (seen s (dir s))(w \<mapsto> vwLength)),
                           fringe := (fringe s)(dir s := fringe s (dir s) @ [(vwLength, counter s, w)]),
                           counter := Suc (counter s),
                           paths := (paths s)(dir s := (paths s (dir s))(w \<mapsto> pv @ [w]))\<rparr>))
                else Inr s)))"

text \<open>
  \<^verbatim>\<open>while fringe[0] and fringe[1]:\<close> the direction changes, the least triple of its heap
  is popped; a node already finished in this direction is skipped; otherwise it is
  finished at the popped distance, the search returns the best path found if the node is
  finished in the other direction too, and else the neighbours of the node are relaxed
  in the order of its adjacency dictionary. A heap that runs empty is
  \<^verbatim>\<open>NetworkXNoPath\<close>.
\<close>

function bidirectional_loop :: "'a graph \<Rightarrow> 'a bidir \<Rightarrow> error + int \<times> 'a list" where
  "bidirectional_loop G s =
     (if fringe s False \<noteq> [] \<and> fringe s True \<noteq> [] then
        (case heappop (fringe s (\<not> dir s)) of ((vdist, k, v), rest) \<Rightarrow>
           let s1 = s\<lparr>dir := \<not> dir s, fringe := (fringe s)(\<not> dir s := rest)\<rparr> in
           if dists s1 (dir s1) v \<noteq> None then bidirectional_loop G s1
           else
             let s2 = s1\<lparr>dists := (dists s1)(dir s1 := (dists s1 (dir s1))(v \<mapsto> vdist))\<rparr> in
             if dists s2 (\<not> dir s2) v \<noteq> None then
               (case finaldist s2 of
                  None \<Rightarrow> Inl UnboundLocalError
                | Some fd \<Rightarrow> Inr (fd, finalpath s2))
             else
               (case map_of G v of
                  None \<Rightarrow> Inl KeyError
                | Some nbrs \<Rightarrow>
                   (case for_loop (relax v) nbrs s2 of
                      Inl e \<Rightarrow> Inl e
                    | Inr s3 \<Rightarrow> bidirectional_loop G s3)))
      else Inl NetworkXNoPath)"
  by pat_completeness auto

text \<open>
  \<^verbatim>\<open>nx.bidirectional_dijkstra(G, source, target, weight)\<close>: \<^verbatim>\<open>NodeNotFound\<close> when the
  source or the target is not a node of the graph, the one-node path when they are the
  same node, and otherwise the loop, started with the source reached in the one
  direction (push 0), the target in the other (push 1), and \<^verbatim>\<open>dir = 1\<close>, so that the
  first step is one from the source.
\<close>

definition bidirectional_dijkstra :: "'a graph \<Rightarrow> 'a \<Rightarrow> 'a \<Rightarrow> error + int \<times> 'a list" where
  "bidirectional_dijkstra G source target =
     (if \<not> has_node G source then Inl NodeNotFound
      else if \<not> has_node G target then Inl NodeNotFound
      else if source = target then Inr (0, [source])
      else
        bidirectional_loop G
          \<lparr>dists = (\<lambda>d. Map.empty),
           seen = (\<lambda>d. if d then [target \<mapsto> 0] else [source \<mapsto> 0]),
           paths = (\<lambda>d. if d then [target \<mapsto> [target]] else [source \<mapsto> [source]]),
           fringe = (\<lambda>d. if d then [(0, 1, target)] else [(0, 0, source)]),
           counter = 2,
           finaldist = None,
           finalpath = [],
           dir = True\<rparr>)"

text \<open>
  \<^verbatim>\<open>nx.shortest_path(G, source=, target=, weight='weight')\<close> with both end points given
  and the default method: the path of \<^verbatim>\<open>bidirectional_dijkstra\<close>, its length dropped.
\<close>

definition shortest_path :: "'a graph \<Rightarrow> 'a \<Rightarrow> 'a \<Rightarrow> error + 'a list" where
  "shortest_path G source target =
     (case bidirectional_dijkstra G source target of
        Inl e \<Rightarrow> Inl e
      | Inr (d, path) \<Rightarrow> Inr path)"

subsection \<open>The method of the repository\<close>

text \<open>\<^verbatim>\<open>enumerate(self.towers)\<close>: the towers with their indices 0, 1, 2, ...\<close>

definition enumerate_py :: "'a list \<Rightarrow> (int \<times> 'a) list" where
  "enumerate_py xs = zip (map int [0..<length xs]) xs"

text \<open>
  Lines 116 to 121: the body of the inner loop, for the tower \<open>i\<close> of the outer loop and
  the tower \<open>j\<close> of the inner one. Only the range of the outer tower (\<^verbatim>\<open>tower[2]\<close>)
  is tested.
\<close>

definition edge_step :: "int \<times> tower \<Rightarrow> int \<times> tower \<Rightarrow> int graph \<Rightarrow> int graph" where
  "edge_step it jt G =
     (case it of (i, x1, y1, r1) \<Rightarrow>
      case jt of (j, x2, y2, r2) \<Rightarrow>
        if i = j then G
        else let d = (x1 - x2)^2 + (y1 - y2)^2 in
             if d \<le> r1^2 then add_edge i j d G else G)"

text \<open>Lines 112 to 121: the graph starts empty; no tower is added as a node of its own.\<close>

definition build_graph :: "tower list \<Rightarrow> int graph" where
  "build_graph ts =
     fold (\<lambda>it. fold (edge_step it) (enumerate_py ts)) (enumerate_py ts) []"

text \<open>
  Lines 123 to 127: only \<^verbatim>\<open>NetworkXNoPath\<close> is caught and turned into \<^verbatim>\<open>None\<close>;
  every other exception of the library leaves the method.
\<close>

definition find_reliable_path :: "CityGrid \<Rightarrow> int \<Rightarrow> int \<Rightarrow> error + int list option" where
  "find_reliable_path c start_tower end_tower =
     (case shortest_path (build_graph (towers c)) start_tower end_tower of
        Inl NetworkXNoPath \<Rightarrow> Inr None
      | Inl e \<Rightarrow> Inl e
      | Inr path \<Rightarrow> Inr (Some path))"

subsection \<open>The vocabulary of the claims about the graph\<close>

text \<open>
  The squared distance of two towers and the range of a tower; two towers are linked
  when their squared distance is within the squared range of either.
\<close>

definition sqdist :: "tower \<Rightarrow> tower \<Rightarrow> int" where
  "sqdist t1 t2 = (fst t1 - fst t2)^2 + (fst (snd t1) - fst (snd t2))^2"

definition range_of :: "tower \<Rightarrow> int" where
  "range_of t = snd (snd t)"

definition linked :: "tower list \<Rightarrow> nat \<Rightarrow> nat \<Rightarrow> bool" where
  "linked ts i j =
     (sqdist (ts ! i) (ts ! j) \<le> (range_of (ts ! i))^2 \<or>
      sqdist (ts ! i) (ts ! j) \<le> (range_of (ts ! j))^2)"

text \<open>
  A walk is a non-empty list of nodes, each joined to the next by an edge; its weight is
  the sum of the weights of its edges. A shortest walk from \<open>src\<close> to \<open>tgt\<close> is one of
  least weight among all walks from \<open>src\<close> to \<open>tgt\<close>.
\<close>

fun is_walk :: "'a graph \<Rightarrow> 'a list \<Rightarrow> bool" where
  "is_walk G [] = False"
| "is_walk G [u] = has_node G u"
| "is_walk G (u # v # p) = (get_weight G u v \<noteq> None \<and> is_walk G (v # p))"

fun walk_weight :: "'a graph \<Rightarrow> 'a list \<Rightarrow> int" where
  "walk_weight G (u # v # p) =
     (case get_weight G u v of None \<Rightarrow> 0 | Some w \<Rightarrow> w) + walk_weight G (v # p)"
| "walk_weight G p = 0"

definition connected :: "'a graph \<Rightarrow> 'a \<Rightarrow> 'a \<Rightarrow> bool" where
  "connected G src tgt = (\<exists>p. is_walk G p \<and> hd p = src \<and> last p = tgt)"

definition shortest_walk :: "'a graph \<Rightarrow> 'a \<Rightarrow> 'a \<Rightarrow> 'a list \<Rightarrow> bool" where
  "shortest_walk G src tgt p =
     (is_walk G p \<and> hd p = src \<and> last p = tgt \<and>
      (\<forall>q. is_walk G q \<and> hd q = src \<and> last q = tgt \<longrightarrow> walk_weight G p \<le> walk_weight G q))"

subsection \<open>Predicates of the proofs\<close>

text \<open>
  The graphs the search is proved on: weights are not negative and the same in both
  directions of an edge, the neighbours of a node are listed once each and are nodes
  themselves. \<open>no_isolated\<close>: every node has an edge.
\<close>

definition nonneg_weights :: "'a graph \<Rightarrow> bool" where
  "nonneg_weights G = (\<forall>u v w. get_weight G u v = Some w \<longrightarrow> 0 \<le> w)"

definition symmetric_weights :: "'a graph \<Rightarrow> bool" where
  "symmetric_weights G = (\<forall>u v. get_weight G u v = get_weight G v u)"

definition wf_graph :: "'a graph \<Rightarrow> bool" where
  "wf_graph G =
     (\<forall>u nbrs. map_of G u = Some nbrs \<longrightarrow>
        distinct (map fst nbrs) \<and> fst ` set nbrs \<subseteq> Collect (has_node G))"

definition no_isolated :: "'a graph \<Rightarrow> bool" where
  "no_isolated G = (\<forall>a. has_node G a \<longrightarrow> (\<exists>b. get_weight G a b \<noteq> None))"

text \<open>
  The size of a search state: the triples in the two heaps and, for either direction,
  the adjacency entries of the nodes not finished yet. Every round of the loop makes it
  smaller.
\<close>

definition unsettled_degree :: "'a graph \<Rightarrow> ('a \<rightharpoonup> int) \<Rightarrow> nat" where
  "unsettled_degree G fd = sum_list (map (\<lambda>(u, nb). if fd u = None then length nb else 0) G)"

definition search_size :: "'a graph \<Rightarrow> 'a bidir \<Rightarrow> nat" where
  "search_size G s =
     length (fringe s False) + unsettled_degree G (dists s False) +
     (length (fringe s True) + unsettled_degree G (dists s True))"

text \<open>The state after the three updates of a relaxation of \<open>w\<close>, before the meeting test.\<close>

definition improved :: "'a \<Rightarrow> int \<Rightarrow> 'a list \<Rightarrow> 'a bidir \<Rightarrow> 'a bidir" where
  "improved w x p s =
     s\<lparr>seen := (seen s)(dir s := (seen s (dir s))(w \<mapsto> x)),
       fringe := (fringe s)(dir s := fringe s (dir s) @ [(x, counter s, w)]),
       counter := Suc (counter s),
       paths := (paths s)(dir s := (paths s (dir s))(w \<mapsto> p))\<rparr>"

text \<open>
  The invariant of one of the two searches, the one that starts at \<open>x\<close>, over its four
  dictionaries. \<open>pend\<close> holds the edges out of the node being expanded that are not
  relaxed yet. \<open>reached\<close>: the path recorded for a node is a walk from \<open>x\<close> of the
  recorded weight, without repetition, through finished nodes only. Then: a finished
  distance is least among all walks; every reached, unfinished node waits in the heap at
  its best distance; every edge out of a finished node is relaxed, the pending ones
  apart; no triple in the heap is below a finished distance; and \<open>x\<close> is the first node
  to be finished.
\<close>

definition reached ::
  "'a graph \<Rightarrow> 'a \<Rightarrow> ('a \<rightharpoonup> int) \<Rightarrow> ('a \<rightharpoonup> 'a list) \<Rightarrow> 'a \<Rightarrow> int \<Rightarrow> bool" where
  "reached G x dst pth u d =
     (\<exists>p. pth u = Some p \<and> is_walk G p \<and> hd p = x \<and> last p = u \<and>
          walk_weight G p = d \<and> distinct p \<and> set (butlast p) \<subseteq> dom dst)"

definition search_inv ::
  "'a graph \<Rightarrow> 'a \<Rightarrow> ('a \<times> 'a) set \<Rightarrow> ('a \<rightharpoonup> int) \<Rightarrow> ('a \<rightharpoonup> int) \<Rightarrow> ('a \<rightharpoonup> 'a list) \<Rightarrow>
     (int \<times> nat \<times> 'a) list \<Rightarrow> bool" where
  "search_inv G x pend dst sn pth fr =
     (sn x = Some 0 \<and>
      (\<forall>u d. sn u = Some d \<longrightarrow> reached G x dst pth u d) \<and>
      (\<forall>v d. dst v = Some d \<longrightarrow>
         sn v = Some d \<and>
         (\<forall>p. is_walk G p \<and> hd p = x \<and> last p = v \<longrightarrow> d \<le> walk_weight G p)) \<and>
      (\<forall>u d. sn u = Some d \<and> dst u = None \<longrightarrow> (\<exists>k. (d, k, u) \<in> set fr)) \<and>
      (\<forall>d k u. (d, k, u) \<in> set fr \<longrightarrow> (\<exists>d'. sn u = Some d' \<and> d' \<le> d)) \<and>
      (\<forall>v dv u w. dst v = Some dv \<and> get_weight G v u = Some w \<and> (v, u) \<notin> pend \<longrightarrow>
         (\<exists>d'. sn u = Some d' \<and> d' \<le> dv + w)) \<and>
      (\<forall>v dv d k u. dst v = Some dv \<and> (d, k, u) \<in> set fr \<longrightarrow> dv \<le> d) \<and>
      (dst = Map.empty \<longrightarrow> (\<exists>k. fr = [(0, k, x)])) \<and>
      (dst \<noteq> Map.empty \<longrightarrow> dst x \<noteq> None))"

text \<open>
  The invariant of the whole state. \<open>sides_inv\<close>: either direction keeps the invariant
  of its search, from the source or from the target; only the direction of the current
  round has pending edges. \<open>meet_inv\<close>: no node is finished in both directions; the best
  path, once there is one, is a walk from source to target of the recorded weight, without
  repetition; and it is no longer than the two recorded distances of any node reached
  from both ends. \<open>phase_inv\<close>: the first round finishes the source, the second one the
  target.
\<close>

definition origin :: "'a \<Rightarrow> 'a \<Rightarrow> bool \<Rightarrow> 'a" where
  "origin src tgt d = (if d then tgt else src)"

definition sides_inv :: "'a graph \<Rightarrow> 'a \<Rightarrow> 'a \<Rightarrow> ('a \<times> 'a) set \<Rightarrow> 'a bidir \<Rightarrow> bool" where
  "sides_inv G src tgt pend s =
     (\<forall>d. search_inv G (origin src tgt d) (if d = dir s then pend else {})
            (dists s d) (seen s d) (paths s d) (fringe s d))"

definition meet_inv :: "'a graph \<Rightarrow> 'a \<Rightarrow> 'a \<Rightarrow> 'a bidir \<Rightarrow> bool" where
  "meet_inv G src tgt s =
     (dom (dists s False) \<inter> dom (dists s True) = {} \<and>
      (finalpath s \<noteq> [] \<longrightarrow>
         (\<exists>fd. finaldist s = Some fd \<and> is_walk G (finalpath s) \<and> hd (finalpath s) = src \<and>
               last (finalpath s) = tgt \<and> walk_weight G (finalpath s) = fd \<and>
               distinct (finalpath s))) \<and>
      (\<forall>w a b. seen s False w = Some a \<and> seen s True w = Some b \<longrightarrow>
         finalpath s \<noteq> [] \<and> (\<exists>fd. finaldist s = Some fd \<and> fd \<le> a + b)))"

definition phase_inv :: "'a \<Rightarrow> 'a bidir \<Rightarrow> bool" where
  "phase_inv src s =
     ((dists s False = Map.empty \<longrightarrow> dir s \<and> dists s True = Map.empty) \<and>
      (dists s True = Map.empty \<and> dists s False \<noteq> Map.empty \<longrightarrow>
         dom (dists s False) = {src} \<and> \<not> dir s))"

definition bidir_inv :: "'a graph \<Rightarrow> 'a \<Rightarrow> 'a \<Rightarrow> 'a bidir \<Rightarrow> bool" where
  "bidir_inv G src tgt s =
     (sides_inv G src tgt {} s \<and> meet_inv G src tgt s \<and> phase_inv src s)"

section \<open>Placement\<close>

lemma grid_at_in_bounds:
  assumes "wf_city c" "0 \<le> x" "x < n c" "0 \<le> y" "y < m c"
  shows "grid_at (grid c) x y = Inr (grid c ! nat x ! nat y)"
proof -
  from assms have len: "x < int (length (grid c))"
    by (simp add: wf_city_def)
  with assms(2) have "nat x < length (grid c)" by linarith
  then have "grid c ! nat x \<in> set (grid c)" by simp
  with assms(1) have "int (length (grid c ! nat x)) = m c"
    by (simp add: wf_city_def list_all_iff)
  with assms len show ?thesis
    by (simp add: grid_at_def np_index_def)
qed

text \<open>
  C4. On an object whose grid has the shape \<open>n \<times> m\<close>, \<open>place_tower\<close> raises nothing.
  It appends the one tower \<open>(x, y, r)\<close> at the end of the registry, that is at the next
  index \<open>length (towers c)\<close>, exactly when \<open>0 \<le> x < n\<close>, \<open>0 \<le> y < m\<close> and the cell
  is passable; in every other case the object is returned as it was.
\<close>

theorem place_tower_appends_iff_valid:
  assumes "wf_city c"
  shows "\<exists>c'. place_tower c x y r = Inr c' \<and>
          c' = (if 0 \<le> x \<and> x < n c \<and> 0 \<le> y \<and> y < m c \<and> grid c ! nat x ! nat y
                then c\<lparr>towers := towers c @ [(x, y, r)]\<rparr> else c) \<and>
          ((0 \<le> x \<and> x < n c \<and> 0 \<le> y \<and> y < m c \<and> grid c ! nat x ! nat y) =
             (length (towers c') = Suc (length (towers c)) \<and>
              towers c' ! length (towers c) = (x, y, r) \<and>
              take (length (towers c)) (towers c') = towers c)) \<and>
          ((\<not> (0 \<le> x \<and> x < n c \<and> 0 \<le> y \<and> y < m c \<and> grid c ! nat x ! nat y)) = (c' = c))"
proof (cases "0 \<le> x \<and> x < n c \<and> 0 \<le> y \<and> y < m c")
  case True
  with assms have "grid_at (grid c) x y = Inr (grid c ! nat x ! nat y)"
    by (simp add: grid_at_in_bounds)
  moreover have "c\<lparr>towers := towers c @ [(x, y, r)]\<rparr> \<noteq> c"
  proof
    assume "c\<lparr>towers := towers c @ [(x, y, r)]\<rparr> = c"
    then have "towers (c\<lparr>towers := towers c @ [(x, y, r)]\<rparr>) = towers c" by simp
    then show False by simp
  qed
  ultimately show ?thesis using True
    by (simp add: place_tower_def)
next
  case False
  then show ?thesis
    by (auto simp add: place_tower_def)
qed

theorem place_tower_appends_iff_valid_witness:
  "wf_city \<lparr>n = 2, m = 2, grid = [[True, False], [True, True]], towers = [(1, 1, 3)]\<rparr> \<and>
   place_tower \<lparr>n = 2, m = 2, grid = [[True, False], [True, True]], towers = [(1, 1, 3)]\<rparr> 0 0 2
     = Inr \<lparr>n = 2, m = 2, grid = [[True, False], [True, True]], towers = [(1, 1, 3), (0, 0, 2)]\<rparr> \<and>
   place_tower \<lparr>n = 2, m = 2, grid = [[True, False], [True, True]], towers = [(1, 1, 3)]\<rparr> 0 1 2
     = Inr \<lparr>n = 2, m = 2, grid = [[True, False], [True, True]], towers = [(1, 1, 3)]\<rparr> \<and>
   place_tower \<lparr>n = 2, m = 2, grid = [[True, False], [True, True]], towers = [(1, 1, 3)]\<rparr> 2 0 2
     = Inr \<lparr>n = 2, m = 2, grid = [[True, False], [True, True]], towers = [(1, 1, 3)]\<rparr>"
proof -
  let ?c = "\<lparr>n = 2, m = 2, grid = [[True, False], [True, True]], towers = [(1, 1, 3)]\<rparr>"
  have wf: "wf_city ?c" by (simp add: wf_city_def)
  from place_tower_appends_iff_valid [OF wf, of 0 0 2]
       place_tower_appends_iff_valid [OF wf, of 0 1 2]
       place_tower_appends_iff_valid [OF wf, of 2 0 2] wf
  show ?thesis by simp
qed

section \<open>Construction\<close>

text \<open>
  C5 (as stated). The claim has the constructor take the passable matrix from its caller
  and draw nothing itself, so that equal arguments give equal grids. The constructor
  of the source takes \<open>n\<close>, \<open>m\<close> and a probability and draws the matrix: with the same
  three arguments, two draws give two different grids.
\<close>

theorem CityGrid_init_grid_not_from_caller:
  "grid (CityGrid_init 1 1 (3 / 10) [[1 / 10]]) = [[False]] \<and>
   grid (CityGrid_init 1 1 (3 / 10) [[1 / 2]]) = [[True]] \<and>
   grid (CityGrid_init 1 1 (3 / 10) [[1 / 10]]) \<noteq> grid (CityGrid_init 1 1 (3 / 10) [[1 / 2]])"
  by (simp add: CityGrid_init_def)

text \<open>
  C5 (amended). The constructor takes the extents \<open>n\<close>, \<open>m\<close> and an obstruction
  probability, and produces the passable matrix itself from an \<open>n \<times> m\<close> draw of the random
  generator: the cell \<open>(x, y)\<close> is passable exactly when its sample exceeds the
  probability. The object has the shape \<open>n \<times> m\<close> and an empty registry.
\<close>

theorem CityGrid_init_thresholds_draw:
  assumes "0 \<le> n0" "0 \<le> m0" "int (length rand) = n0"
    and "list_all (\<lambda>row. int (length row) = m0) rand"
  shows "wf_city (CityGrid_init n0 m0 p rand) \<and>
         n (CityGrid_init n0 m0 p rand) = n0 \<and>
         m (CityGrid_init n0 m0 p rand) = m0 \<and>
         towers (CityGrid_init n0 m0 p rand) = [] \<and>
         (\<forall>x y. 0 \<le> x \<and> x < n0 \<and> 0 \<le> y \<and> y < m0 \<longrightarrow>
            grid_at (grid (CityGrid_init n0 m0 p rand)) x y = Inr (p < rand ! nat x ! nat y))"
proof -
  let ?c = "CityGrid_init n0 m0 p rand"
  have wf: "wf_city ?c"
    using assms by (simp add: wf_city_def CityGrid_init_def list_all_iff)
  have "grid_at (grid ?c) x y = Inr (p < rand ! nat x ! nat y)"
    if b: "0 \<le> x \<and> x < n0 \<and> 0 \<le> y \<and> y < m0" for x y
  proof -
    from b assms(3) have lx: "nat x < length rand" by linarith
    then have "rand ! nat x \<in> set rand" by simp
    with assms(4) have "int (length (rand ! nat x)) = m0"
      by (simp add: list_all_iff)
    with b have ly: "nat y < length (rand ! nat x)" by linarith
    from b have "grid_at (grid ?c) x y = Inr (grid ?c ! nat x ! nat y)"
      using grid_at_in_bounds [OF wf, of x y] by (simp add: CityGrid_init_def)
    also have "grid ?c ! nat x ! nat y = (p < rand ! nat x ! nat y)"
      using lx ly by (simp add: CityGrid_init_def)
    finally show ?thesis .
  qed
  with wf show ?thesis
    by (simp add: CityGrid_init_def)
qed

theorem CityGrid_init_thresholds_draw_witness:
  "(0::int) \<le> 1 \<and> (0::int) \<le> 2 \<and> int (length [[1 / 10, 1 / 2 :: real]]) = 1 \<and>
   list_all (\<lambda>row. int (length row) = 2) [[1 / 10, 1 / 2 :: real]] \<and>
   wf_city (CityGrid_init 1 2 (3 / 10) [[1 / 10, 1 / 2]]) \<and>
   towers (CityGrid_init 1 2 (3 / 10) [[1 / 10, 1 / 2]]) = [] \<and>
   grid_at (grid (CityGrid_init 1 2 (3 / 10) [[1 / 10, 1 / 2]])) 0 0 = Inr False \<and>
   grid_at (grid (CityGrid_init 1 2 (3 / 10) [[1 / 10, 1 / 2]])) 0 1 = Inr True"
proof -
  have a: "(0::int) \<le> 1" "(0::int) \<le> 2" "int (length [[1 / 10, 1 / 2 :: real]]) = 1"
    "list_all (\<lambda>row. int (length row) = 2) [[1 / 10, 1 / 2 :: real]]"
    by simp_all
  from CityGrid_init_thresholds_draw [OF a, of "3 / 10"] a
  show ?thesis by simp
qed

section \<open>The scan of the grid\<close>

lemma for_loop_append:
  "for_loop f (xs @ ys) s = (case for_loop f xs s of Inl e \<Rightarrow> Inl e | Inr s' \<Rightarrow> for_loop f ys s')"
  by (induction xs arbitrary: s) (auto split: sum.splits)

lemma for_loop_map: "for_loop f (map g xs) s = for_loop (\<lambda>x. f (g x)) xs s"
  by (induction xs arbitrary: s) (auto split: sum.splits)

lemma for_loop_product:
  "for_loop (\<lambda>x. for_loop (f x) ys) xs s = for_loop (\<lambda>(x, y). f x y) (List.product xs ys) s"
  by (induction xs arbitrary: s) (auto simp: for_loop_append for_loop_map split: sum.splits)

lemma coverage_loop_fst:
  "fst (coverage_loop x y ts (k, dv)) = k + int (coverageCount ts x y)"
  by (induction ts arbitrary: k dv) (auto simp: coverageCount_def Let_def)

lemma coverage_loop_snd_Some:
  "snd (coverage_loop x y ts (k, Some d)) \<noteq> None"
  by (induction ts arbitrary: k d) (auto simp: Let_def)

lemma coverage_loop_snd:
  "ts \<noteq> [] \<Longrightarrow> snd (coverage_loop x y ts (k, dv)) \<noteq> None"
proof (cases ts)
  case Nil
  assume "ts \<noteq> []"
  with Nil show ?thesis by simp
next
  case (Cons t ts')
  obtain tx ty tr where "t = (tx, ty, tr)" by (cases t)
  with Cons show ?thesis
    using coverage_loop_snd_Some by (simp add: Let_def)
qed

lemma cells_in_bounds:
  "(x, y) \<in> set (List.product [0..n c - 1] [0..m c - 1]) \<Longrightarrow> 0 \<le> x \<and> x < n c \<and> 0 \<le> y \<and> y < m c"
  by auto

lemma scan_cell_bound:
  assumes "wf_city c" "towers c \<noteq> []" "0 \<le> x" "x < n c" "0 \<le> y" "y < m c"
  shows "\<exists>s'. scan_cell c tt x y s = Inr s' \<and>
           best_tower s' = (if uncovered c (x, y) \<and> best_coverage s < coverage tt
                            then Some (x, y) else best_tower s) \<and>
           best_coverage s' = (if uncovered c (x, y) \<and> best_coverage s < coverage tt
                               then coverage tt else best_coverage s)"
proof -
  have g: "grid_at (grid c) x y = Inr (grid c ! nat x ! nat y)"
    using assms by (simp add: grid_at_in_bounds)
  obtain k dv where cl: "coverage_loop x y (towers c) (0, distance s) = (k, dv)"
    by (cases "coverage_loop x y (towers c) (0, distance s)")
  from coverage_loop_fst [of x y "towers c" 0 "distance s"] cl
  have k: "k = int (coverageCount (towers c) x y)" by simp
  from coverage_loop_snd [OF assms(2), of x y 0 "distance s"] cl
  obtain d where dv: "dv = Some d" by auto
  show ?thesis
    by (simp add: scan_cell_def g cl k dv uncovered_def)
qed

lemma scan_cells_bound:
  assumes "wf_city c" "towers c \<noteq> []"
    and "\<forall>(x, y) \<in> set cs. 0 \<le> x \<and> x < n c \<and> 0 \<le> y \<and> y < m c"
  shows "\<exists>s'. for_loop (\<lambda>(x, y). scan_cell c tt x y) cs s = Inr s' \<and>
           best_tower s' =
             (if best_coverage s < coverage tt
              then (case find (uncovered c) cs of None \<Rightarrow> best_tower s | Some p \<Rightarrow> Some p)
              else best_tower s)"
  using assms(3)
proof (induction cs arbitrary: s)
  case Nil
  then show ?case by simp
next
  case (Cons p cs)
  obtain x y where p: "p = (x, y)" by (cases p)
  with Cons.prems have b: "0 \<le> x" "x < n c" "0 \<le> y" "y < m c" by auto
  from scan_cell_bound [OF assms(1,2) b, of tt s]
  obtain s1 where s1: "scan_cell c tt x y s = Inr s1"
    and t1: "best_tower s1 = (if uncovered c (x, y) \<and> best_coverage s < coverage tt
                            then Some (x, y) else best_tower s)"
    and c1: "best_coverage s1 = (if uncovered c (x, y) \<and> best_coverage s < coverage tt
                               then coverage tt else best_coverage s)"
    by blast
  from Cons.prems have "\<forall>(x, y) \<in> set cs. 0 \<le> x \<and> x < n c \<and> 0 \<le> y \<and> y < m c" by simp
  from Cons.IH [OF this, of s1]
  obtain s' where s': "for_loop (\<lambda>(x, y). scan_cell c tt x y) cs s1 = Inr s'"
    and r': "best_tower s' =
             (if best_coverage s1 < coverage tt
              then (case find (uncovered c) cs of None \<Rightarrow> best_tower s1 | Some p \<Rightarrow> Some p)
              else best_tower s1)"
    by blast
  have "for_loop (\<lambda>(x, y). scan_cell c tt x y) (p # cs) s = Inr s'"
    by (simp add: p s1 s')
  moreover have "best_tower s' =
             (if best_coverage s < coverage tt
              then (case find (uncovered c) (p # cs) of None \<Rightarrow> best_tower s | Some p \<Rightarrow> Some p)
              else best_tower s)"
    by (simp add: r' t1 c1 p split: option.splits)
  ultimately show ?case by blast
qed

lemma scan_bound:
  assumes "wf_city c" "towers c \<noteq> []"
  shows "\<exists>s. scan c tt \<lparr>best_tower = None, best_coverage = 0, best_distance = 0, distance = dv\<rparr> = Inr s \<and>
           best_tower s = (if 0 < coverage tt then first_uncovered c else None)"
proof -
  let ?s0 = "\<lparr>best_tower = None, best_coverage = 0, best_distance = 0, distance = dv\<rparr>"
  have "\<forall>(x, y) \<in> set (List.product [0..n c - 1] [0..m c - 1]). 0 \<le> x \<and> x < n c \<and> 0 \<le> y \<and> y < m c"
    by auto
  from scan_cells_bound [OF assms this, of tt ?s0]
  obtain s' where s': "for_loop (\<lambda>(x, y). scan_cell c tt x y) (List.product [0..n c - 1] [0..m c - 1]) ?s0 = Inr s'"
    and r: "best_tower s' =
             (if best_coverage ?s0 < coverage tt
              then (case find (uncovered c) (List.product [0..n c - 1] [0..m c - 1]) of None \<Rightarrow> best_tower ?s0 | Some p \<Rightarrow> Some p)
              else best_tower ?s0)"
    by blast
  from r have "best_tower s' = (if 0 < coverage tt then first_uncovered c else None)"
    by (simp add: first_uncovered_def split: option.splits)
  with s' show ?thesis
    by (simp add: scan_def for_loop_product)
qed

lemma scan_cell_unbound:
  assumes "wf_city c" "towers c = []" "distance s = None" "0 \<le> x" "x < n c" "0 \<le> y" "y < m c"
  shows "scan_cell c tt x y s =
           (if grid c ! nat x ! nat y \<and> best_coverage s < coverage tt
            then Inl UnboundLocalError else Inr s)"
proof -
  have g: "grid_at (grid c) x y = Inr (grid c ! nat x ! nat y)"
    using assms by (simp add: grid_at_in_bounds)
  have "s\<lparr>distance := None\<rparr> = s" using assms(3) by simp
  then show ?thesis
    using assms(2,3) by (simp add: scan_cell_def g)
qed

lemma scan_cells_unbound:
  assumes "wf_city c" "towers c = []" "distance s = None"
    and "\<forall>(x, y) \<in> set cs. 0 \<le> x \<and> x < n c \<and> 0 \<le> y \<and> y < m c"
  shows "for_loop (\<lambda>(x, y). scan_cell c tt x y) cs s =
           (if best_coverage s < coverage tt \<and> find (uncovered c) cs \<noteq> None
            then Inl UnboundLocalError else Inr s)"
  using assms(4)
proof (induction cs)
  case Nil
  then show ?case by simp
next
  case (Cons p cs)
  obtain x y where p: "p = (x, y)" by (cases p)
  with Cons.prems have b: "0 \<le> x" "x < n c" "0 \<le> y" "y < m c" by auto
  have u: "uncovered c (x, y) = (grid c ! nat x ! nat y)"
    using assms(2) by (simp add: uncovered_def coverageCount_def)
  from Cons show ?case
    by (simp add: p scan_cell_unbound [OF assms(1,2,3) b] u)
qed

lemma scan_unbound:
  assumes "wf_city c" "towers c = []"
  shows "scan c tt \<lparr>best_tower = None, best_coverage = 0, best_distance = 0, distance = None\<rparr> =
           (if 0 < coverage tt \<and> first_uncovered c \<noteq> None then Inl UnboundLocalError
            else Inr \<lparr>best_tower = None, best_coverage = 0, best_distance = 0, distance = None\<rparr>)"
proof -
  let ?s0 = "\<lparr>best_tower = None, best_coverage = 0, best_distance = 0, distance = None\<rparr>"
  have "\<forall>(x, y) \<in> set (List.product [0..n c - 1] [0..m c - 1]). 0 \<le> x \<and> x < n c \<and> 0 \<le> y \<and> y < m c"
    by auto
  from scan_cells_unbound [OF assms _ this, of ?s0 tt]
  show ?thesis
    by (simp add: scan_def for_loop_product first_uncovered_def)
qed

section \<open>The loop of one tower type\<close>

lemma coverageCount_append:
  "coverageCount (ts @ [(tx, ty, r)]) x y =
     coverageCount ts x y + (if (x - tx)^2 + (y - ty)^2 \<le> r^2 then 1 else 0)"
  by (simp add: coverageCount_def)

lemma uncovered_append:
  "uncovered (c\<lparr>towers := towers c @ [(tx, ty, r)]\<rparr>) (x, y) =
     (uncovered c (x, y) \<and> \<not> (x - tx)^2 + (y - ty)^2 \<le> r^2)"
  by (auto simp: uncovered_def coverageCount_append)

lemma own_cell_covered: "\<not> uncovered (c\<lparr>towers := towers c @ [(x, y, r)]\<rparr>) (x, y)"
  by (simp add: uncovered_append)

lemma first_uncovered_Some:
  assumes "first_uncovered c = Some (x, y)"
  shows "(x, y) \<in> set (List.product [0..n c - 1] [0..m c - 1])" "uncovered c (x, y)"
    "0 \<le> x" "x < n c" "0 \<le> y" "y < m c" "grid c ! nat x ! nat y"
proof -
  from assms obtain i where i: "i < length (List.product [0..n c - 1] [0..m c - 1])"
    "uncovered c (List.product [0..n c - 1] [0..m c - 1] ! i)"
    "(x, y) = List.product [0..n c - 1] [0..m c - 1] ! i"
    unfolding first_uncovered_def find_Some_iff by blast
  then show mem: "(x, y) \<in> set (List.product [0..n c - 1] [0..m c - 1])"
    by (metis nth_mem)
  from i show u: "uncovered c (x, y)" by simp
  from mem show "0 \<le> x" "x < n c" "0 \<le> y" "y < m c" by auto
  from u show "grid c ! nat x ! nat y" by (simp add: uncovered_def)
qed

lemma uncovered_cells_decrease:
  assumes "first_uncovered c = Some (x, y)"
  shows "length (filter (uncovered (c\<lparr>towers := towers c @ [(x, y, r)]\<rparr>)) cs)
           \<le> length (filter (uncovered c) cs)"
    and "(x, y) \<in> set cs \<Longrightarrow>
         length (filter (uncovered (c\<lparr>towers := towers c @ [(x, y, r)]\<rparr>)) cs)
           < length (filter (uncovered c) cs)"
proof -
  let ?c' = "c\<lparr>towers := towers c @ [(x, y, r)]\<rparr>"
  have sub: "filter (uncovered ?c') cs = filter (uncovered ?c') (filter (uncovered c) cs)"
    by (auto simp: uncovered_append intro: filter_cong)
  show "length (filter (uncovered ?c') cs) \<le> length (filter (uncovered c) cs)"
    using length_filter_le [of "uncovered ?c'" "filter (uncovered c) cs"] sub by simp
  assume "(x, y) \<in> set cs"
  with first_uncovered_Some(2) [OF assms]
  have "(x, y) \<in> set (filter (uncovered c) cs)" by simp
  moreover have "\<not> uncovered ?c' (x, y)" by (rule own_cell_covered)
  ultimately have "length (filter (uncovered ?c') (filter (uncovered c) cs))
                     < length (filter (uncovered c) cs)"
    by (rule length_filter_less)
  with sub show "length (filter (uncovered ?c') cs) < length (filter (uncovered c) cs)"
    by simp
qed

termination spec_place
proof (relation "measure (\<lambda>(c, tt, r).
          length (filter (uncovered c) (List.product [0..n c - 1] [0..m c - 1])))")
  show "wf (measure (\<lambda>(c, tt, r).
          length (filter (uncovered c) (List.product [0..n c - 1] [0..m c - 1]))))"
    by simp
next
  fix c :: CityGrid and tt :: tower_type and remaining :: int and p x y
  assume "first_uncovered c = Some p" "(x, y) = p"
  then have f: "first_uncovered c = Some (x, y)" by simp
  from uncovered_cells_decrease(2) [OF f first_uncovered_Some(1) [OF f], of "range_tt tt"]
  show "((c\<lparr>towers := towers c @ [(x, y, range_tt tt)]\<rparr>, tt, remaining - cost tt),
          c, tt, remaining) \<in> measure (\<lambda>(c, tt, r).
          length (filter (uncovered c) (List.product [0..n c - 1] [0..m c - 1])))"
    by simp
qed

declare spec_place.simps [simp del]

lemma wf_city_towers [simp]: "wf_city (c\<lparr>towers := ts\<rparr>) = wf_city c"
  by (simp add: wf_city_def)

lemma place_tower_first_uncovered:
  assumes "wf_city c" "first_uncovered c = Some (x, y)"
  shows "place_tower c x y r = Inr (c\<lparr>towers := towers c @ [(x, y, r)]\<rparr>)"
  using first_uncovered_Some [OF assms(2)] grid_at_in_bounds [OF assms(1), of x y]
  by (simp add: place_tower_def)

lemma place_while_nonempty:
  "wf_city c \<Longrightarrow> towers c \<noteq> [] \<Longrightarrow>
     \<exists>d. place_while c tt remaining dv = Some (Inr (spec_place c tt remaining, d))"
proof (induction c tt remaining arbitrary: dv rule: spec_place.induct)
  case (1 c tt remaining)
  from scan_bound [OF "1.prems", of tt dv]
  obtain s where s: "scan c tt \<lparr>best_tower = None, best_coverage = 0, best_distance = 0,
                                  distance = dv\<rparr> = Inr s"
    and bt: "best_tower s = (if 0 < coverage tt then first_uncovered c else None)"
    by blast
  show ?case
  proof (cases "cost tt \<le> remaining \<and> 0 < coverage tt")
    case False
    then show ?thesis
      by (subst place_while.simps, subst spec_place.simps) (auto simp: s bt)
  next
    case True
    show ?thesis
    proof (cases "first_uncovered c")
      case None
      with True show ?thesis
        by (subst place_while.simps, subst spec_place.simps) (simp add: s bt)
    next
      case (Some p)
      obtain x y where p: "p = (x, y)" by (cases p)
      let ?c' = "c\<lparr>towers := towers c @ [(x, y, range_tt tt)]\<rparr>"
      from Some p have f: "first_uncovered c = Some (x, y)" by simp
      have "wf_city ?c'" "towers ?c' \<noteq> []" using "1.prems" by simp_all
      from "1.IH" [OF True Some p [symmetric] this, of "distance s"]
      obtain d where "place_while ?c' tt (remaining - cost tt) (distance s)
                       = Some (Inr (spec_place ?c' tt (remaining - cost tt), d))"
        by blast
      with True f show ?thesis
        by (subst place_while.simps, subst spec_place.simps)
           (simp add: s bt place_tower_first_uncovered [OF "1.prems"(1) f])
    qed
  qed
qed

lemma place_while_empty:
  assumes "wf_city c" "towers c = []"
  shows "place_while c tt remaining None =
           (if cost tt \<le> remaining \<and> 0 < coverage tt \<and> first_uncovered c \<noteq> None
            then Some (Inl UnboundLocalError) else Some (Inr (c, None)))"
  by (subst place_while.simps) (simp add: scan_unbound [OF assms])

lemma spec_place_frame:
  "n (spec_place c tt r) = n c \<and> m (spec_place c tt r) = m c \<and>
   grid (spec_place c tt r) = grid c"
proof (induction c tt r rule: spec_place.induct)
  case (1 c tt remaining)
  show ?case
  proof (cases "cost tt \<le> remaining \<and> 0 < coverage tt")
    case False
    then show ?thesis
      by (subst (1 2 3) spec_place.simps) auto
  next
    case True
    show ?thesis
    proof (cases "first_uncovered c")
      case None
      with True show ?thesis
        by (subst (1 2 3) spec_place.simps) simp
    next
      case (Some p)
      obtain x y where p: "p = (x, y)" by (cases p)
      from "1.IH" [OF True Some p [symmetric]] True Some p show ?thesis
        by (subst (1 2 3) spec_place.simps) simp
    qed
  qed
qed

lemma uncovered_no_tower:
  assumes "uncovered c (x, y)"
  shows "(x, y) \<notin> (\<lambda>(tx, ty, r). (tx, ty)) ` set (towers c)"
proof
  assume "(x, y) \<in> (\<lambda>(tx, ty, r). (tx, ty)) ` set (towers c)"
  then obtain r where "(x, y, r) \<in> set (towers c)" by auto
  then have "filter (\<lambda>(tx, ty, trange). (x - tx)^2 + (y - ty)^2 \<le> trange^2) (towers c) \<noteq> []"
    by (auto simp: filter_empty_conv intro!: bexI [of _ "(x, y, r)"])
  with assms show False
    by (simp add: uncovered_def coverageCount_def)
qed

lemma spec_place_towers:
  "\<exists>added. towers (spec_place c tt r) = towers c @ added \<and>
     (\<forall>t \<in> set added. snd (snd t) = range_tt tt) \<and>
     (0 \<le> cost tt \<longrightarrow> 0 \<le> r \<longrightarrow> int (length added) * cost tt \<le> r) \<and>
     distinct (map (\<lambda>(x, y, r). (x, y)) added) \<and>
     (\<lambda>(x, y, r). (x, y)) ` set added \<inter> (\<lambda>(x, y, r). (x, y)) ` set (towers c) = {}"
proof (induction c tt r rule: spec_place.induct)
  case (1 c tt remaining)
  show ?case
  proof (cases "cost tt \<le> remaining \<and> 0 < coverage tt")
    case False
    then show ?thesis
      by (subst spec_place.simps) auto
  next
    case True
    show ?thesis
    proof (cases "first_uncovered c")
      case None
      with True show ?thesis
        by (subst spec_place.simps) simp
    next
      case (Some p)
      obtain x y where p: "p = (x, y)" by (cases p)
      let ?c' = "c\<lparr>towers := towers c @ [(x, y, range_tt tt)]\<rparr>"
      from Some p have f: "first_uncovered c = Some (x, y)" by simp
      from "1.IH" [OF True Some p [symmetric]]
      obtain added where a: "towers (spec_place ?c' tt (remaining - cost tt)) = towers ?c' @ added"
        and rg: "\<forall>t \<in> set added. snd (snd t) = range_tt tt"
        and bd: "0 \<le> cost tt \<longrightarrow> 0 \<le> remaining - cost tt \<longrightarrow>
                   int (length added) * cost tt \<le> remaining - cost tt"
        and ds: "distinct (map (\<lambda>(x, y, r). (x, y)) added)"
        and dj: "(\<lambda>(x, y, r). (x, y)) ` set added \<inter> (\<lambda>(x, y, r). (x, y)) ` set (towers ?c') = {}"
        by blast
      have eq: "spec_place c tt remaining = spec_place ?c' tt (remaining - cost tt)"
        using True f by (subst spec_place.simps) simp
      have fresh: "(x, y) \<notin> (\<lambda>(tx, ty, r). (tx, ty)) ` set (towers c)"
        by (rule uncovered_no_tower [OF first_uncovered_Some(2) [OF f]])
      have 1: "towers (spec_place c tt remaining) = towers c @ ((x, y, range_tt tt) # added)"
        using a eq by simp
      have 2: "\<forall>t \<in> set ((x, y, range_tt tt) # added). snd (snd t) = range_tt tt"
        using rg by simp
      have 3: "0 \<le> cost tt \<longrightarrow> 0 \<le> remaining \<longrightarrow>
                 int (length ((x, y, range_tt tt) # added)) * cost tt \<le> remaining"
        using bd True by (auto simp: algebra_simps)
      have 4: "distinct (map (\<lambda>(x, y, r). (x, y)) ((x, y, range_tt tt) # added))"
        using ds dj by auto
      have 5: "(\<lambda>(x, y, r). (x, y)) ` set ((x, y, range_tt tt) # added)
                 \<inter> (\<lambda>(x, y, r). (x, y)) ` set (towers c) = {}"
        using dj fresh by auto
      from 1 2 3 4 5 show ?thesis by blast
    qed
  qed
qed

lemma spec_place_eq:
  "spec_place c tt r = c\<lparr>towers := towers (spec_place c tt r)\<rparr>"
  using spec_place_frame [of c tt r] by (intro CityGrid.equality) simp_all

lemma wf_spec_place: "wf_city c \<Longrightarrow> wf_city (spec_place c tt r)"
  using spec_place_frame [of c tt r] by (simp add: wf_city_def)

lemma nonempty_spec_place: "towers c \<noteq> [] \<Longrightarrow> towers (spec_place c tt r) \<noteq> []"
  using spec_place_towers [of c tt r] by auto

lemma type_loop_nonempty:
  "wf_city c \<Longrightarrow> towers c \<noteq> [] \<Longrightarrow>
     \<exists>d. type_loop budget tts (c, dv) = Some (Inr (spec_optimize c budget tts, d))"
proof (induction tts arbitrary: c dv)
  case Nil
  then show ?case by (simp add: spec_optimize_def)
next
  case (Cons tt tts)
  from place_while_nonempty [OF Cons.prems, of tt budget dv]
  obtain d where d: "place_while c tt budget dv = Some (Inr (spec_place c tt budget, d))"
    by blast
  from Cons.IH [OF wf_spec_place [OF Cons.prems(1)] nonempty_spec_place [OF Cons.prems(2)],
      of tt budget d]
  show ?case
    by (simp add: d spec_optimize_def)
qed

lemma type_loop_empty:
  assumes "wf_city c" "towers c = []"
  shows "type_loop budget tts (c, None) =
           (if \<exists>tt \<in> set tts. cost tt \<le> budget \<and> 0 < coverage tt \<and> first_uncovered c \<noteq> None
            then Some (Inl UnboundLocalError) else Some (Inr (c, None)))"
proof (induction tts)
  case Nil
  show ?case by simp
next
  case (Cons tt tts)
  show ?case
  proof (cases "cost tt \<le> budget \<and> 0 < coverage tt \<and> first_uncovered c \<noteq> None")
    case True
    then have "place_while c tt budget None = Some (Inl UnboundLocalError)"
      by (simp add: place_while_empty [OF assms])
    moreover from True have "\<exists>tt \<in> set (tt # tts).
        cost tt \<le> budget \<and> 0 < coverage tt \<and> first_uncovered c \<noteq> None"
      by simp
    ultimately show ?thesis
      by (simp del: set_simps)
  next
    case False
    then have "place_while c tt budget None = Some (Inr (c, None))"
      by (simp add: place_while_empty [OF assms])
    with False Cons show ?thesis
      by (simp; blast)
  qed
qed

lemma optimize_nonempty:
  assumes "wf_city c" "towers c \<noteq> []"
  shows "optimize_tower_placement c budget tts = Some (Inr (spec_optimize c budget tts))"
  using type_loop_nonempty [OF assms, of budget tts None]
  by (auto simp: optimize_tower_placement_def)

lemma optimize_empty:
  assumes "wf_city c" "towers c = []"
  shows "optimize_tower_placement c budget tts =
           (if \<exists>tt \<in> set tts. cost tt \<le> budget \<and> 0 < coverage tt \<and> first_uncovered c \<noteq> None
            then Some (Inl UnboundLocalError) else Some (Inr c))"
proof (cases "\<exists>tt \<in> set tts. cost tt \<le> budget \<and> 0 < coverage tt \<and> first_uncovered c \<noteq> None")
  case True
  then have "type_loop budget tts (c, None) = Some (Inl UnboundLocalError)"
    by (simp only: type_loop_empty [OF assms] if_True)
  with True show ?thesis
    by (simp only: optimize_tower_placement_def if_True option.case sum.case)
next
  case False
  then have "type_loop budget tts (c, None) = Some (Inr (c, None))"
    by (simp only: type_loop_empty [OF assms] if_False)
  with False show ?thesis
    by (simp only: optimize_tower_placement_def if_False option.case sum.case prod.case)
qed

lemma scan_cell_impassable:
  assumes "wf_city c" "0 \<le> x" "x < n c" "0 \<le> y" "y < m c" "\<not> grid c ! nat x ! nat y"
  shows "scan_cell c tt x y s = Inr s"
  using assms grid_at_in_bounds [OF assms(1-5)] by (simp add: scan_cell_def)

lemma scan_cells_no_towers_none:
  assumes "wf_city c" "towers c = []" "find (uncovered c) cs = None"
    and "\<forall>(x, y) \<in> set cs. 0 \<le> x \<and> x < n c \<and> 0 \<le> y \<and> y < m c"
  shows "for_loop (\<lambda>(x, y). scan_cell c tt x y) cs s = Inr s"
  using assms(3,4)
proof (induction cs)
  case Nil
  then show ?case by simp
next
  case (Cons p cs)
  obtain x y where p: "p = (x, y)" by (cases p)
  with Cons.prems have b: "0 \<le> x" "x < n c" "0 \<le> y" "y < m c" by auto
  from Cons.prems(1) p have "\<not> uncovered c (x, y)" by (auto split: if_splits)
  then have "\<not> grid c ! nat x ! nat y"
    using assms(2) by (simp add: uncovered_def coverageCount_def)
  from scan_cell_impassable [OF assms(1) b this] Cons p show ?case
    by (auto split: if_splits)
qed

lemma place_while_no_candidate:
  assumes "wf_city c" "first_uncovered c = None"
  shows "\<exists>d. place_while c tt remaining dv = Some (Inr (c, d))"
proof (cases "towers c = []")
  case False
  have "spec_place c tt remaining = c"
    using assms(2) by (subst spec_place.simps) simp
  with place_while_nonempty [OF assms(1) False, of tt remaining dv]
  show ?thesis by simp
next
  case True
  let ?s0 = "\<lparr>best_tower = None, best_coverage = 0, best_distance = 0, distance = dv\<rparr>"
  have "\<forall>(x, y) \<in> set (List.product [0..n c - 1] [0..m c - 1]). 0 \<le> x \<and> x < n c \<and> 0 \<le> y \<and> y < m c"
    by auto
  from scan_cells_no_towers_none [OF assms(1) True _ this, of tt ?s0] assms(2)
  have "scan c tt ?s0 = Inr ?s0"
    by (simp add: scan_def for_loop_product first_uncovered_def)
  then show ?thesis
    by (subst place_while.simps) simp
qed

text \<open>
  C7. On every object of shape \<open>n \<times> m\<close>, for every budget and every list of tower types
  (whatever the signs of budget, costs and ranges), \<open>optimize_tower_placement\<close> ends:
  the model returns \<open>Some\<close> result, never the \<open>None\<close> of a loop that runs forever (the
  result is an exception only for an empty registry, where reading \<^verbatim>\<open>distance\<close>
  raises); with a tower in the registry it ends normally. And whenever no cell qualifies,
  the loop of a type, also of a type with cost 0, ends at once and leaves the object as
  it was.
\<close>

theorem optimize_terminates:
  assumes "wf_city c"
  shows "(\<exists>r. optimize_tower_placement c budget tts = Some r) \<and>
         (towers c \<noteq> [] \<longrightarrow> (\<exists>c'. optimize_tower_placement c budget tts = Some (Inr c'))) \<and>
         (first_uncovered c = None \<longrightarrow>
            (\<exists>d. place_while c tt remaining dv = Some (Inr (c, d))))"
proof (intro conjI impI)
  show "\<exists>r. optimize_tower_placement c budget tts = Some r"
  proof (cases "towers c = []")
    case True
    show ?thesis
      by (simp only: optimize_empty [OF assms True] split: if_splits) simp
  next
    case False
    show ?thesis
      by (simp add: optimize_nonempty [OF assms False])
  qed
next
  assume "towers c \<noteq> []"
  then show "\<exists>c'. optimize_tower_placement c budget tts = Some (Inr c')"
    by (simp add: optimize_nonempty [OF assms])
next
  assume "first_uncovered c = None"
  then show "\<exists>d. place_while c tt remaining dv = Some (Inr (c, d))"
    by (rule place_while_no_candidate [OF assms])
qed


section \<open>What the optimizer adds\<close>

lemma spec_optimize_snoc:
  "spec_optimize c budget (tts @ [tt]) = spec_place (spec_optimize c budget tts) tt budget"
  by (simp add: spec_optimize_def)

lemma spec_optimize_groups:
  "\<exists>groups. length groups = length tts \<and>
     (\<forall>i \<le> length tts. spec_optimize c budget (take i tts)
                          = c\<lparr>towers := towers c @ concat (take i groups)\<rparr>) \<and>
     (\<forall>i < length tts.
        (\<forall>t \<in> set (groups ! i). snd (snd t) = range_tt (tts ! i)) \<and>
        (0 \<le> cost (tts ! i) \<longrightarrow> 0 \<le> budget \<longrightarrow>
           int (length (groups ! i)) * cost (tts ! i) \<le> budget))"
proof (induction tts rule: rev_induct)
  case Nil
  show ?case by (simp add: spec_optimize_def)
next
  case (snoc tt tts)
  then obtain groups where len: "length groups = length tts"
    and st: "\<forall>i \<le> length tts. spec_optimize c budget (take i tts)
                          = c\<lparr>towers := towers c @ concat (take i groups)\<rparr>"
    and gr: "\<forall>i < length tts.
        (\<forall>t \<in> set (groups ! i). snd (snd t) = range_tt (tts ! i)) \<and>
        (0 \<le> cost (tts ! i) \<longrightarrow> 0 \<le> budget \<longrightarrow>
           int (length (groups ! i)) * cost (tts ! i) \<le> budget)"
    by blast
  let ?c1 = "spec_optimize c budget tts"
  from st len have c1: "?c1 = c\<lparr>towers := towers c @ concat groups\<rparr>" by auto
  from spec_place_towers [of ?c1 tt budget]
  obtain added where a: "towers (spec_place ?c1 tt budget) = towers ?c1 @ added"
    and rg: "\<forall>t \<in> set added. snd (snd t) = range_tt tt"
    and bd: "0 \<le> cost tt \<longrightarrow> 0 \<le> budget \<longrightarrow> int (length added) * cost tt \<le> budget"
    by blast
  have full: "spec_optimize c budget (tts @ [tt])
                = c\<lparr>towers := towers c @ concat (groups @ [added])\<rparr>"
    using spec_place_eq [of ?c1 tt budget] a c1
    by (simp add: spec_optimize_snoc)
  have "length (groups @ [added]) = length (tts @ [tt])" using len by simp
  moreover have "\<forall>i \<le> length (tts @ [tt]). spec_optimize c budget (take i (tts @ [tt]))
                          = c\<lparr>towers := towers c @ concat (take i (groups @ [added]))\<rparr>"
  proof (intro allI impI)
    fix i assume i: "i \<le> length (tts @ [tt])"
    show "spec_optimize c budget (take i (tts @ [tt]))
            = c\<lparr>towers := towers c @ concat (take i (groups @ [added]))\<rparr>"
    proof (cases "i \<le> length tts")
      case True
      with st len show ?thesis by simp
    next
      case False
      with i have "i = Suc (length tts)" by simp
      with full len show ?thesis by simp
    qed
  qed
  moreover have "\<forall>i < length (tts @ [tt]).
        (\<forall>t \<in> set ((groups @ [added]) ! i). snd (snd t) = range_tt ((tts @ [tt]) ! i)) \<and>
        (0 \<le> cost ((tts @ [tt]) ! i) \<longrightarrow> 0 \<le> budget \<longrightarrow>
           int (length ((groups @ [added]) ! i)) * cost ((tts @ [tt]) ! i) \<le> budget)"
  proof (intro allI impI)
    fix i assume i: "i < length (tts @ [tt])"
    show "(\<forall>t \<in> set ((groups @ [added]) ! i). snd (snd t) = range_tt ((tts @ [tt]) ! i)) \<and>
        (0 \<le> cost ((tts @ [tt]) ! i) \<longrightarrow> 0 \<le> budget \<longrightarrow>
           int (length ((groups @ [added]) ! i)) * cost ((tts @ [tt]) ! i) \<le> budget)"
    proof (cases "i < length tts")
      case True
      with gr len show ?thesis by (simp add: nth_append)
    next
      case False
      with i have "i = length tts" by simp
      with rg bd len show ?thesis by (simp add: nth_append)
    qed
  qed
  ultimately show ?case by blast
qed

text \<open>
  C6. With \<open>budget \<ge> 0\<close> and all costs \<open>\<ge> 0\<close>, a call that returns has only appended
  to the registry, and the appended towers split into one group per tower type, in
  order: the \<open>i\<close>-th group is exactly what is appended between the run on the first
  \<open>i\<close> types and the run on the first \<open>i + 1\<close> types, and the costs of its towers
  (each the cost of type \<open>i\<close>) sum to at most \<open>budget\<close>: the budget is started afresh
  for every type.
\<close>

theorem optimize_monotone_within_budget:
  assumes "wf_city c" "0 \<le> budget" "\<forall>tt \<in> set tts. 0 \<le> cost tt"
    and "optimize_tower_placement c budget tts = Some (Inr c')"
  shows "\<exists>groups. length groups = length tts \<and>
           c' = c\<lparr>towers := towers c @ concat groups\<rparr> \<and>
           length (towers c) \<le> length (towers c') \<and>
           (\<forall>i < length tts.
              optimize_tower_placement c budget (take i tts)
                = Some (Inr (c\<lparr>towers := towers c @ concat (take i groups)\<rparr>)) \<and>
              optimize_tower_placement c budget (take (Suc i) tts)
                = Some (Inr (c\<lparr>towers := towers c @ concat (take i groups) @ groups ! i\<rparr>)) \<and>
              (\<Sum>t\<leftarrow>groups ! i. cost (tts ! i)) \<le> budget)"
proof (cases "towers c = []")
  case False
  from spec_optimize_groups [of tts c budget]
  obtain groups where len: "length groups = length tts"
    and st: "\<forall>i \<le> length tts. spec_optimize c budget (take i tts)
                          = c\<lparr>towers := towers c @ concat (take i groups)\<rparr>"
    and gr: "\<forall>i < length tts.
        (\<forall>t \<in> set (groups ! i). snd (snd t) = range_tt (tts ! i)) \<and>
        (0 \<le> cost (tts ! i) \<longrightarrow> 0 \<le> budget \<longrightarrow>
           int (length (groups ! i)) * cost (tts ! i) \<le> budget)"
    by blast
  from assms(4) optimize_nonempty [OF assms(1) False, of budget tts]
  have "c' = spec_optimize c budget tts" by simp
  with st len have c': "c' = c\<lparr>towers := towers c @ concat groups\<rparr>" by auto
  have "optimize_tower_placement c budget (take i tts)
          = Some (Inr (c\<lparr>towers := towers c @ concat (take i groups)\<rparr>)) \<and>
        optimize_tower_placement c budget (take (Suc i) tts)
          = Some (Inr (c\<lparr>towers := towers c @ concat (take i groups) @ groups ! i\<rparr>)) \<and>
        (\<Sum>t\<leftarrow>groups ! i. cost (tts ! i)) \<le> budget"
    if i: "i < length tts" for i
  proof -
    from i st have 1: "spec_optimize c budget (take i tts)
                         = c\<lparr>towers := towers c @ concat (take i groups)\<rparr>" by simp
    from i st have 2: "spec_optimize c budget (take (Suc i) tts)
                         = c\<lparr>towers := towers c @ concat (take (Suc i) groups)\<rparr>" by simp
    from i len have 3: "concat (take (Suc i) groups) = concat (take i groups) @ groups ! i"
      by (simp add: take_Suc_conv_app_nth)
    from i assms(3) have "0 \<le> cost (tts ! i)" by simp
    with gr i assms(2) have "int (length (groups ! i)) * cost (tts ! i) \<le> budget" by simp
    then have 4: "(\<Sum>t\<leftarrow>groups ! i. cost (tts ! i)) \<le> budget"
      by (simp add: sum_list_triv)
    from 1 2 3 4 show ?thesis
      by (simp add: optimize_nonempty [OF assms(1) False])
  qed
  with len c' show ?thesis by auto
next
  case True
  let ?trig = "\<lambda>ts. \<exists>tt \<in> set ts. cost tt \<le> budget \<and> 0 < coverage tt \<and> first_uncovered c \<noteq> None"
  have nt: "\<not> ?trig tts"
  proof
    assume "?trig tts"
    then have "optimize_tower_placement c budget tts = Some (Inl UnboundLocalError)"
      by (simp only: optimize_empty [OF assms(1) True] if_True)
    with assms(4) show False by simp
  qed
  then have "optimize_tower_placement c budget tts = Some (Inr c)"
    by (simp only: optimize_empty [OF assms(1) True] if_False)
  with assms(4) have c': "c' = c" by simp
  have pre: "optimize_tower_placement c budget (take i tts) = Some (Inr c)" for i
  proof -
    from nt have "\<not> ?trig (take i tts)" by (meson in_set_takeD)
    then show ?thesis
      by (simp only: optimize_empty [OF assms(1) True] if_False)
  qed
  have cc: "c\<lparr>towers := []\<rparr> = c" using True by simp
  show ?thesis
    by (rule exI [of _ "replicate (length tts) []"])
       (simp add: c' pre True cc assms(2) concat_replicate_trivial take_replicate del: replicate.simps)
qed

text \<open>
  C10. The towers appended by one call stand on pairwise distinct cells, none of which
  holds a tower of the registry the call started from. (The ranges of the towers
  already there play no part: a tower covers its own cell whatever the sign of its range,
  since the range is squared.)
\<close>

theorem optimize_never_stacks:
  assumes "wf_city c" "optimize_tower_placement c budget tts = Some (Inr c')"
  shows "\<exists>added. towers c' = towers c @ added \<and>
           distinct (map (\<lambda>(x, y, r). (x, y)) added) \<and>
           (\<lambda>(x, y, r). (x, y)) ` set added \<inter> (\<lambda>(x, y, r). (x, y)) ` set (towers c) = {}"
proof (cases "towers c = []")
  case True
  have "c' = c"
  proof (cases "\<exists>tt \<in> set tts. cost tt \<le> budget \<and> 0 < coverage tt \<and> first_uncovered c \<noteq> None")
    case True
    then have "optimize_tower_placement c budget tts = Some (Inl UnboundLocalError)"
      by (simp only: optimize_empty [OF assms(1) \<open>towers c = []\<close>] if_True)
    with assms(2) show ?thesis by simp
  next
    case False
    then have "optimize_tower_placement c budget tts = Some (Inr c)"
      by (simp only: optimize_empty [OF assms(1) \<open>towers c = []\<close>] if_False)
    with assms(2) show ?thesis by simp
  qed
  then show ?thesis by simp
next
  case False
  have g: "\<exists>added. towers (spec_optimize c budget tts) = towers c @ added \<and>
           distinct (map (\<lambda>(x, y, r). (x, y)) added) \<and>
           (\<lambda>(x, y, r). (x, y)) ` set added \<inter> (\<lambda>(x, y, r). (x, y)) ` set (towers c) = {}" for c
  proof (induction tts arbitrary: c)
    case Nil
    show ?case by (simp add: spec_optimize_def)
  next
    case (Cons tt tts)
    let ?c1 = "spec_place c tt budget"
    from spec_place_towers [of c tt budget]
    obtain a1 where a1: "towers ?c1 = towers c @ a1"
      "distinct (map (\<lambda>(x, y, r). (x, y)) a1)"
      "(\<lambda>(x, y, r). (x, y)) ` set a1 \<inter> (\<lambda>(x, y, r). (x, y)) ` set (towers c) = {}"
      by blast
    from Cons.IH [of ?c1]
    obtain a2 where a2: "towers (spec_optimize ?c1 budget tts) = towers ?c1 @ a2"
      "distinct (map (\<lambda>(x, y, r). (x, y)) a2)"
      "(\<lambda>(x, y, r). (x, y)) ` set a2 \<inter> (\<lambda>(x, y, r). (x, y)) ` set (towers ?c1) = {}"
      by blast
    have "towers (spec_optimize c budget (tt # tts)) = towers c @ (a1 @ a2)"
      using a1(1) a2(1) by (simp add: spec_optimize_def)
    moreover have dj: "(\<lambda>(x, y, r). (x, y)) ` set a1 \<inter> (\<lambda>(x, y, r). (x, y)) ` set a2 = {}"
      using a2(3) unfolding a1(1) by (simp add: image_Un Int_Un_distrib Int_commute)
    have "distinct (map (\<lambda>(x, y, r). (x, y)) (a1 @ a2))"
      using a1(2) a2(2) dj by simp
    moreover have "(\<lambda>(x, y, r). (x, y)) ` set (a1 @ a2)
                     \<inter> (\<lambda>(x, y, r). (x, y)) ` set (towers c) = {}"
      using a1(3) a2(3) unfolding a1(1) by (simp add: image_Un Int_Un_distrib Int_Un_distrib2)
    ultimately show ?case by blast
  qed
  from assms(2) optimize_nonempty [OF assms(1) False, of budget tts]
  have "c' = spec_optimize c budget tts" by simp
  with g [of c] show ?thesis by simp
qed

text \<open>
  C2 (amended). On an object of shape \<open>n \<times> m\<close> whose registry is not empty, the optimizer
  returns what the loop of the specification returns, run type by type with the whole
  budget for each: while the remaining budget covers the cost of the type and the
  coverage score of the type is positive, a tower with the range of the type is placed on
  the first cell in row-major order that is passable and covered by no tower of the
  registry as it stands at that moment; the loop of the type ends when no such cell is
  left.
\<close>

theorem optimize_places_first_uncovered:
  assumes "wf_city c" "towers c \<noteq> []"
  shows "optimize_tower_placement c budget tts = Some (Inr (spec_optimize c budget tts))"
  by (rule optimize_nonempty [OF assms])


section \<open>The optimizer on small grids\<close>

theorem optimize_places_first_uncovered_witness:
  "wf_city \<lparr>n = 1, m = 3, grid = [[True, True, True]], towers = [(0, 0, 0)]\<rparr> \<and>
   towers \<lparr>n = 1, m = 3, grid = [[True, True, True]], towers = [(0, 0, 0)]\<rparr> \<noteq> [] \<and>
   first_uncovered \<lparr>n = 1, m = 3, grid = [[True, True, True]], towers = [(0, 0, 0)]\<rparr> = Some (0, 1) \<and>
   optimize_tower_placement \<lparr>n = 1, m = 3, grid = [[True, True, True]], towers = [(0, 0, 0)]\<rparr>
       5 [\<lparr>range_tt = 0, coverage = 1, cost = 2\<rparr>]
     = Some (Inr \<lparr>n = 1, m = 3, grid = [[True, True, True]],
                   towers = [(0, 0, 0), (0, 1, 0), (0, 2, 0)]\<rparr>)"
proof -
  let ?c = "\<lparr>n = 1, m = 3, grid = [[True, True, True]], towers = [(0, 0, 0)]\<rparr>"
  have wf: "wf_city ?c" by (simp add: wf_city_def)
  have ne: "towers ?c \<noteq> []" by simp
  have fu: "first_uncovered ?c = Some (0, 1)" by code_simp
  have sp: "spec_optimize ?c 5 [\<lparr>range_tt = 0, coverage = 1, cost = 2\<rparr>]
              = \<lparr>n = 1, m = 3, grid = [[True, True, True]],
                 towers = [(0, 0, 0), (0, 1, 0), (0, 2, 0)]\<rparr>"
    by code_simp
  from optimize_places_first_uncovered [OF wf ne, of 5 "[\<lparr>range_tt = 0, coverage = 1, cost = 2\<rparr>]"]
    wf fu sp
  show ?thesis by simp
qed

text \<open>
  C2 (as stated). The claim places a tower whenever a qualifying cell exists and the
  remaining budget covers the cost. A type whose coverage score is 0 never passes the
  test \<^verbatim>\<open>tower_type['coverage'] > best_coverage\<close>: here the cell \<open>(0, 1)\<close> qualifies,
  the budget covers the cost, and nothing is placed.
\<close>

theorem optimize_skips_nonpositive_coverage:
  "wf_city \<lparr>n = 1, m = 2, grid = [[True, True]], towers = [(0, 0, 0)]\<rparr> \<and>
   first_uncovered \<lparr>n = 1, m = 2, grid = [[True, True]], towers = [(0, 0, 0)]\<rparr> = Some (0, 1) \<and>
   cost \<lparr>range_tt = 1, coverage = 0, cost = 1\<rparr> \<le> 1 \<and>
   optimize_tower_placement \<lparr>n = 1, m = 2, grid = [[True, True]], towers = [(0, 0, 0)]\<rparr>
       1 [\<lparr>range_tt = 1, coverage = 0, cost = 1\<rparr>]
     = Some (Inr \<lparr>n = 1, m = 2, grid = [[True, True]], towers = [(0, 0, 0)]\<rparr>)"
proof -
  let ?c = "\<lparr>n = 1, m = 2, grid = [[True, True]], towers = [(0, 0, 0)]\<rparr>"
  have "wf_city ?c" by (simp add: wf_city_def)
  moreover have "first_uncovered ?c = Some (0, 1)" by code_simp
  moreover have "optimize_tower_placement ?c 1 [\<lparr>range_tt = 1, coverage = 0, cost = 1\<rparr>]
     = Some (Inr ?c)" by code_simp
  ultimately show ?thesis by simp
qed

theorem optimize_monotone_within_budget_witness:
  "optimize_tower_placement \<lparr>n = 1, m = 3, grid = [[True, True, True]], towers = [(0, 0, 0)]\<rparr>
       3 [\<lparr>range_tt = 0, coverage = 1, cost = 2\<rparr>, \<lparr>range_tt = 0, coverage = 1, cost = 3\<rparr>]
     = Some (Inr \<lparr>n = 1, m = 3, grid = [[True, True, True]],
                   towers = [(0, 0, 0), (0, 1, 0), (0, 2, 0)]\<rparr>) \<and>
   (\<exists>groups. length groups = 2 \<and>
      \<lparr>n = 1, m = 3, grid = [[True, True, True]], towers = [(0, 0, 0), (0, 1, 0), (0, 2, 0)]\<rparr>
        = \<lparr>n = 1, m = 3, grid = [[True, True, True]], towers = [(0, 0, 0)] @ concat groups\<rparr> \<and>
      (\<Sum>t\<leftarrow>groups ! 0. (2::int)) \<le> 3 \<and> (\<Sum>t\<leftarrow>groups ! 1. (3::int)) \<le> 3)"
proof -
  let ?c = "\<lparr>n = 1, m = 3, grid = [[True, True, True]], towers = [(0, 0, 0)]\<rparr>"
  let ?tts = "[\<lparr>range_tt = 0, coverage = 1, cost = 2\<rparr>, \<lparr>range_tt = 0, coverage = 1, cost = 3\<rparr>]"
  let ?c' = "\<lparr>n = 1, m = 3, grid = [[True, True, True]],
               towers = [(0, 0, 0), (0, 1, 0), (0, 2, 0)]\<rparr>"
  have wf: "wf_city ?c" by (simp add: wf_city_def)
  have b: "(0::int) \<le> 3" by simp
  have cs: "\<forall>tt \<in> set ?tts. 0 \<le> cost tt" by simp
  have run: "optimize_tower_placement ?c 3 ?tts = Some (Inr ?c')" by code_simp
  from optimize_monotone_within_budget [OF wf b cs run]
  obtain groups where g: "length groups = length ?tts"
    "?c' = ?c\<lparr>towers := towers ?c @ concat groups\<rparr>"
    "\<forall>i < length ?tts. (\<Sum>t\<leftarrow>groups ! i. cost (?tts ! i)) \<le> 3"
    by blast
  from g(3) have "(\<Sum>t\<leftarrow>groups ! 0. (2::int)) \<le> 3" "(\<Sum>t\<leftarrow>groups ! 1. (3::int)) \<le> 3"
    by (auto dest: spec [of _ 0] spec [of _ 1])
  with g(1,2) run show ?thesis
    by (intro conjI exI [of _ groups]) simp_all
qed

theorem optimize_terminates_witness:
  "wf_city \<lparr>n = 1, m = 2, grid = [[True, False]], towers = [(0, 0, 0)]\<rparr> \<and>
   first_uncovered \<lparr>n = 1, m = 2, grid = [[True, False]], towers = [(0, 0, 0)]\<rparr> = None \<and>
   cost \<lparr>range_tt = 1, coverage = 1, cost = 0\<rparr> = 0 \<and>
   (\<exists>r. optimize_tower_placement \<lparr>n = 1, m = 2, grid = [[True, False]], towers = [(0, 0, 0)]\<rparr>
           0 [\<lparr>range_tt = 1, coverage = 1, cost = 0\<rparr>] = Some r) \<and>
   (\<exists>c'. optimize_tower_placement \<lparr>n = 1, m = 2, grid = [[True, False]], towers = [(0, 0, 0)]\<rparr>
           0 [\<lparr>range_tt = 1, coverage = 1, cost = 0\<rparr>] = Some (Inr c')) \<and>
   (\<exists>d. place_while \<lparr>n = 1, m = 2, grid = [[True, False]], towers = [(0, 0, 0)]\<rparr>
           \<lparr>range_tt = 1, coverage = 1, cost = 0\<rparr> 0 None
         = Some (Inr (\<lparr>n = 1, m = 2, grid = [[True, False]], towers = [(0, 0, 0)]\<rparr>, d)))"
proof -
  let ?c = "\<lparr>n = 1, m = 2, grid = [[True, False]], towers = [(0, 0, 0)]\<rparr>"
  have wf: "wf_city ?c" by (simp add: wf_city_def)
  have fu: "first_uncovered ?c = None" by code_simp
  from optimize_terminates [OF wf, of 0 "[\<lparr>range_tt = 1, coverage = 1, cost = 0\<rparr>]"
      "\<lparr>range_tt = 1, coverage = 1, cost = 0\<rparr>" 0 None] wf fu
  show ?thesis by simp
qed

theorem optimize_never_stacks_witness:
  "optimize_tower_placement \<lparr>n = 1, m = 3, grid = [[True, True, True]], towers = [(0, 0, 0)]\<rparr>
       3 [\<lparr>range_tt = 0, coverage = 1, cost = 1\<rparr>]
     = Some (Inr \<lparr>n = 1, m = 3, grid = [[True, True, True]],
                   towers = [(0, 0, 0), (0, 1, 0), (0, 2, 0)]\<rparr>) \<and>
   (\<exists>added. [(0, 0, 0), (0, 1, 0), (0, 2, 0)] = [(0, 0, 0)] @ added \<and>
      distinct (map (\<lambda>(x, y, r). (x, y)) added) \<and>
      (\<lambda>(x, y, r). (x, y)) ` set added \<inter> (\<lambda>(x, y, r). (x, y)) ` set [(0::int, 0::int, 0::int)] = {})"
proof -
  let ?c = "\<lparr>n = 1, m = 3, grid = [[True, True, True]], towers = [(0, 0, 0)]\<rparr>"
  let ?c' = "\<lparr>n = 1, m = 3, grid = [[True, True, True]],
               towers = [(0, 0, 0), (0, 1, 0), (0, 2, 0)]\<rparr>"
  have wf: "wf_city ?c" by (simp add: wf_city_def)
  have run: "optimize_tower_placement ?c 3 [\<lparr>range_tt = 0, coverage = 1, cost = 1\<rparr>] = Some (Inr ?c')"
    by code_simp
  from optimize_never_stacks [OF wf run] run
  show ?thesis by simp
qed

section \<open>The edges of the built graph\<close>

lemma map_of_add_node:
  "map_of (add_node u G) a = (if a = u \<and> map_of G u = None then Some [] else map_of G a)"
  by (auto simp: add_node_def map_add_def split: option.splits)

lemma adj_map_of: "map_of G u = Some nbrs \<Longrightarrow> adj G u = nbrs"
  by (simp add: adj_def)

lemma map_of_add_edge:
  "map_of (add_edge u v w G) a =
     (if a = v then Some (AList.update u w (if u = v then AList.update v w (adj G u) else adj G v))
      else if a = u then Some (AList.update v w (adj G u))
      else map_of G a)"
  by (auto simp: add_edge_def Let_def update_conv' map_of_add_node adj_def split: option.splits)

lemma get_weight_add_edge:
  "get_weight (add_edge u v w G) a b =
     (if (a = u \<and> b = v) \<or> (a = v \<and> b = u) then Some w else get_weight G a b)"
  by (auto simp: get_weight_def map_of_add_edge update_conv' adj_def split: option.splits)

lemma has_node_add_edge:
  "has_node (add_edge u v w G) a = (a = u \<or> a = v \<or> has_node G a)"
  by (auto simp: has_node_def map_of_add_edge)

lemma sqdist_sym: "sqdist t1 t2 = sqdist t2 t1"
  by (simp add: sqdist_def power2_commute)

lemma sqdist_nonneg: "0 \<le> sqdist t1 t2"
  by (simp add: sqdist_def)

lemma edge_step_eq:
  "edge_step (i, t1) (j, t2) G =
     (if i \<noteq> j \<and> sqdist t1 t2 \<le> (range_of t1)^2 then add_edge i j (sqdist t1 t2) G else G)"
  by (cases t1; cases t2) (simp add: edge_step_def sqdist_def range_of_def Let_def)

lemma fold_fold_product:
  "fold (\<lambda>x. fold (f x) ys) xs s = fold (\<lambda>(x, y). f x y) (List.product xs ys) s"
  by (induction xs arbitrary: s) (simp_all add: fold_map comp_def)

lemma in_enumerate_py:
  "(i, t) \<in> set (enumerate_py ts) = (\<exists>k < length ts. i = int k \<and> t = ts ! k)"
proof
  assume "(i, t) \<in> set (enumerate_py ts)"
  then obtain k where "k < length ts" "map int [0..<length ts] ! k = i" "ts ! k = t"
    by (auto simp: enumerate_py_def in_set_zip)
  then show "\<exists>k < length ts. i = int k \<and> t = ts ! k" by auto
next
  assume "\<exists>k < length ts. i = int k \<and> t = ts ! k"
  then obtain k where k: "k < length ts" "i = int k" "t = ts ! k" by blast
  then have "(i, t) = zip (map int [0..<length ts]) ts ! k" by simp
  moreover have "k < length (zip (map int [0..<length ts]) ts)" using k by simp
  ultimately show "(i, t) \<in> set (enumerate_py ts)"
    unfolding enumerate_py_def by (metis nth_mem)
qed

lemma get_weight_fold_edge_step:
  assumes "\<forall>(it, jt) \<in> set ps. it \<in> set (enumerate_py ts) \<and> jt \<in> set (enumerate_py ts)"
  shows "get_weight (fold (\<lambda>(it, jt). edge_step it jt) ps G) a b =
           (if \<exists>i j. i < length ts \<and> j < length ts \<and> i \<noteq> j \<and>
                  ((a = int i \<and> b = int j) \<or> (a = int j \<and> b = int i)) \<and>
                  ((int i, ts ! i), (int j, ts ! j)) \<in> set ps \<and>
                  sqdist (ts ! i) (ts ! j) \<le> (range_of (ts ! i))^2
            then Some (sqdist (ts ! nat a) (ts ! nat b))
            else get_weight G a b)"
  using assms
proof (induction ps arbitrary: G)
  case Nil
  show ?case by simp
next
  case (Cons p ps)
  obtain it jt where p: "p = (it, jt)" by (cases p)
  with Cons.prems obtain i j where i: "i < length ts" "it = (int i, ts ! i)"
    and j: "j < length ts" "jt = (int j, ts ! j)"
    by (cases it; cases jt) (auto simp: in_enumerate_py)
  let ?P = "\<lambda>ps. \<exists>i j. i < length ts \<and> j < length ts \<and> i \<noteq> j \<and>
                  ((a = int i \<and> b = int j) \<or> (a = int j \<and> b = int i)) \<and>
                  ((int i, ts ! i), (int j, ts ! j)) \<in> set ps \<and>
                  sqdist (ts ! i) (ts ! j) \<le> (range_of (ts ! i))^2"
  let ?hit = "i \<noteq> j \<and> sqdist (ts ! i) (ts ! j) \<le> (range_of (ts ! i))^2 \<and>
              ((a = int i \<and> b = int j) \<or> (a = int j \<and> b = int i))"
  from Cons.prems have "\<forall>(it, jt) \<in> set ps. it \<in> set (enumerate_py ts) \<and> jt \<in> set (enumerate_py ts)"
    by simp
  note IH = Cons.IH [OF this, of "edge_step it jt G"]
  have step: "get_weight (edge_step it jt G) a b =
                (if ?hit then Some (sqdist (ts ! nat a) (ts ! nat b)) else get_weight G a b)"
  proof (cases ?hit)
    case True
    then have "sqdist (ts ! nat a) (ts ! nat b) = sqdist (ts ! i) (ts ! j)"
      using sqdist_sym [of "ts ! i" "ts ! j"] by auto
    with True show ?thesis
      unfolding i j by (simp add: edge_step_eq get_weight_add_edge)
  next
    case False
    then show ?thesis
      unfolding i j by (auto simp: edge_step_eq get_weight_add_edge)
  qed
  have split: "?P (p # ps) = (?hit \<or> ?P ps)"
  proof
    assume "?P (p # ps)"
    then obtain i' j' where h: "i' < length ts" "j' < length ts" "i' \<noteq> j'"
      "(a = int i' \<and> b = int j') \<or> (a = int j' \<and> b = int i')"
      "((int i', ts ! i'), (int j', ts ! j')) \<in> set (p # ps)"
      "sqdist (ts ! i') (ts ! j') \<le> (range_of (ts ! i'))^2"
      by blast
    show "?hit \<or> ?P ps"
    proof (cases "((int i', ts ! i'), (int j', ts ! j')) = p")
      case True
      with p i j have "i' = i" "j' = j" by simp_all
      with h show ?thesis by simp
    next
      case False
      with h have "((int i', ts ! i'), (int j', ts ! j')) \<in> set ps" by simp
      with h have "?P ps" by blast
      then show ?thesis ..
    qed
  next
    assume "?hit \<or> ?P ps"
    then show "?P (p # ps)"
    proof
      assume ?hit
      with i j p show ?thesis by (intro exI [of _ i] exI [of _ j]) simp
    next
      assume "?P ps"
      then obtain i' j' where "i' < length ts \<and> j' < length ts \<and> i' \<noteq> j' \<and>
                  ((a = int i' \<and> b = int j') \<or> (a = int j' \<and> b = int i')) \<and>
                  ((int i', ts ! i'), (int j', ts ! j')) \<in> set ps \<and>
                  sqdist (ts ! i') (ts ! j') \<le> (range_of (ts ! i'))^2"
        by blast
      then show ?thesis by (intro exI [of _ i'] exI [of _ j']) simp
    qed
  qed
  define hit where "hit \<longleftrightarrow> ?hit"
  define rest where "rest \<longleftrightarrow> ?P ps"
  define W where "W = sqdist (ts ! nat a) (ts ! nat b)"
  have 1: "get_weight (fold (\<lambda>(it, jt). edge_step it jt) (p # ps) G) a b
          = get_weight (fold (\<lambda>(it, jt). edge_step it jt) ps (edge_step it jt G)) a b"
    by (simp add: p)
  have 2: "get_weight (fold (\<lambda>(it, jt). edge_step it jt) ps (edge_step it jt G)) a b
          = (if rest then Some W else get_weight (edge_step it jt G) a b)"
    unfolding rest_def W_def by (rule IH)
  have 3: "get_weight (edge_step it jt G) a b = (if hit then Some W else get_weight G a b)"
    unfolding hit_def W_def by (rule step)
  have 4: "?P (p # ps) = (hit \<or> rest)"
    unfolding hit_def rest_def by (rule split)
  have "get_weight (fold (\<lambda>(it, jt). edge_step it jt) (p # ps) G) a b
          = (if hit \<or> rest then Some W else get_weight G a b)"
    unfolding 1 2 3 by simp
  then show ?case
    unfolding 4 W_def .
qed

lemma product_enumerate_mem:
  "((int i, ts ! i), (int j, ts ! j)) \<in> set (List.product (enumerate_py ts) (enumerate_py ts))
     = (i < length ts \<and> j < length ts)"
  by (auto simp: in_enumerate_py)

lemma get_weight_Nil [simp]: "get_weight [] a b = None"
  by (simp add: get_weight_def)

lemma get_weight_build_graph:
  "get_weight (build_graph ts) a b =
     (if \<exists>i j. i < length ts \<and> j < length ts \<and> i \<noteq> j \<and> a = int i \<and> b = int j \<and>
            (sqdist (ts ! i) (ts ! j) \<le> (range_of (ts ! i))^2 \<or>
             sqdist (ts ! i) (ts ! j) \<le> (range_of (ts ! j))^2)
      then Some (sqdist (ts ! nat a) (ts ! nat b)) else None)"
proof -
  let ?E = "enumerate_py ts"
  have mem: "\<forall>(it, jt) \<in> set (List.product ?E ?E). it \<in> set ?E \<and> jt \<in> set ?E"
    by auto
  have "(\<exists>i j. i < length ts \<and> j < length ts \<and> i \<noteq> j \<and>
                  ((a = int i \<and> b = int j) \<or> (a = int j \<and> b = int i)) \<and>
                  ((int i, ts ! i), (int j, ts ! j)) \<in> set (List.product ?E ?E) \<and>
                  sqdist (ts ! i) (ts ! j) \<le> (range_of (ts ! i))^2)
        = (\<exists>i j. i < length ts \<and> j < length ts \<and> i \<noteq> j \<and> a = int i \<and> b = int j \<and>
            (sqdist (ts ! i) (ts ! j) \<le> (range_of (ts ! i))^2 \<or>
             sqdist (ts ! i) (ts ! j) \<le> (range_of (ts ! j))^2))" (is "?L = ?R")
  proof
    assume ?L
    then obtain i j where h: "i < length ts" "j < length ts" "i \<noteq> j"
      "(a = int i \<and> b = int j) \<or> (a = int j \<and> b = int i)"
      "sqdist (ts ! i) (ts ! j) \<le> (range_of (ts ! i))^2"
      by blast
    from h(4) show ?R
    proof
      assume "a = int i \<and> b = int j"
      with h show ?R by blast
    next
      assume "a = int j \<and> b = int i"
      with h sqdist_sym [of "ts ! i" "ts ! j"] show ?R
        by (intro exI [of _ j] exI [of _ i]) simp
    qed
  next
    assume ?R
    then obtain i j where h: "i < length ts" "j < length ts" "i \<noteq> j" "a = int i" "b = int j"
      "sqdist (ts ! i) (ts ! j) \<le> (range_of (ts ! i))^2 \<or>
       sqdist (ts ! i) (ts ! j) \<le> (range_of (ts ! j))^2"
      by blast
    from h(6) show ?L
    proof
      assume "sqdist (ts ! i) (ts ! j) \<le> (range_of (ts ! i))^2"
      with h show ?L
        by (intro exI [of _ i] exI [of _ j]) (simp add: product_enumerate_mem del: set_product)
    next
      assume "sqdist (ts ! i) (ts ! j) \<le> (range_of (ts ! j))^2"
      with h sqdist_sym [of "ts ! i" "ts ! j"] show ?L
        by (intro exI [of _ j] exI [of _ i]) (simp add: product_enumerate_mem del: set_product)
    qed
  qed
  then have "get_weight (fold (\<lambda>(it, jt). edge_step it jt) (List.product ?E ?E) []) a b
          = (if ?R then Some (sqdist (ts ! nat a) (ts ! nat b)) else get_weight [] a b)"
    by (simp only: get_weight_fold_edge_step [OF mem, of "[]" a b])
  then show ?thesis
    by (simp only: build_graph_def fold_fold_product get_weight_Nil)
qed

text \<open>
  C3. In the graph built from a registry, for two distinct tower indices \<open>i\<close> and \<open>j\<close>
  with squared distance \<open>d\<close>: the edge between \<open>i\<close> and \<open>j\<close> is there, with weight \<open>d\<close>,
  exactly when \<open>d \<le> range\<^sub>i\<^sup>2\<close> or \<open>d \<le> range\<^sub>j\<^sup>2\<close>; it is the same edge read from either
  end; and no node has an edge to itself.
\<close>

theorem build_graph_edge_iff_either_range:
  "(\<forall>i j. i < length ts \<and> j < length ts \<and> i \<noteq> j \<longrightarrow>
      get_weight (build_graph ts) (int i) (int j) =
        (if sqdist (ts ! i) (ts ! j) \<le> (range_of (ts ! i))^2 \<or>
            sqdist (ts ! i) (ts ! j) \<le> (range_of (ts ! j))^2
         then Some (sqdist (ts ! i) (ts ! j)) else None) \<and>
      get_weight (build_graph ts) (int j) (int i) = get_weight (build_graph ts) (int i) (int j)) \<and>
   (\<forall>a. get_weight (build_graph ts) a a = None)"
proof -
  have 1: "get_weight (build_graph ts) (int i) (int j) =
        (if sqdist (ts ! i) (ts ! j) \<le> (range_of (ts ! i))^2 \<or>
            sqdist (ts ! i) (ts ! j) \<le> (range_of (ts ! j))^2
         then Some (sqdist (ts ! i) (ts ! j)) else None)"
    if "i < length ts \<and> j < length ts \<and> i \<noteq> j" for i j
    using that by (simp add: get_weight_build_graph)
  have 2: "get_weight (build_graph ts) (int j) (int i) = get_weight (build_graph ts) (int i) (int j)"
    if h: "i < length ts \<and> j < length ts \<and> i \<noteq> j" for i j
  proof -
    from h have h': "j < length ts \<and> i < length ts \<and> j \<noteq> i" by simp
    show ?thesis
      unfolding 1 [OF h] 1 [OF h'] using sqdist_sym [of "ts ! i" "ts ! j"] by auto
  qed
  have 3: "get_weight (build_graph ts) a a = None" for a
    by (simp add: get_weight_build_graph)
  from 1 2 3 show ?thesis by blast
qed

section \<open>The search ends\<close>

lemma heappop_mem:
  assumes "h \<noteq> []" "heappop h = (e, rest)"
  shows "e \<in> set h" "rest = remove1 e h" "length rest < length h"
    "\<forall>x \<in> set h. (case e of (d, k, v) \<Rightarrow> (d, k)) \<le> (case x of (d, k, v) \<Rightarrow> (d, k))"
proof -
  from assms(2) have e: "e = arg_min_list (\<lambda>(d, k, v). (d, k)) h" and r: "rest = remove1 e h"
    by (auto simp: heappop_def Let_def)
  from e assms(1) show m: "e \<in> set h" by (simp add: arg_min_list_in)
  from r show "rest = remove1 e h" .
  from m have "0 < length h" by (cases h) simp_all
  with m r show "length rest < length h"
    by (simp add: length_remove1)
  from f_arg_min_list_f [OF assms(1), of "\<lambda>(d, k, v). (d, k)"] e
  have "(case e of (d, k, v) \<Rightarrow> (d, k)) = Min ((\<lambda>(d, k, v). (d, k)) ` set h)" by simp
  then show "\<forall>x \<in> set h. (case e of (d, k, v) \<Rightarrow> (d, k)) \<le> (case x of (d, k, v) \<Rightarrow> (d, k))"
    by simp
qed

lemma meet_frame:
  assumes "meet w s = Inr s'"
  shows "dists s' = dists s" "fringe s' = fringe s" "dir s' = dir s" "seen s' = seen s"
    "paths s' = paths s" "counter s' = counter s"
  using assms
  by (auto simp: meet_def Let_def split: option.splits if_splits)

lemma relax_cases:
  assumes "relax v (w, c) s = Inr s'"
  obtains (keep) "s' = s"
  | (improve) dv pv where "dists s (dir s) v = Some dv" "dists s (dir s) w = None"
      "paths s (dir s) v = Some pv"
      "seen s (dir s) w = None \<or> (\<exists>sw. seen s (dir s) w = Some sw \<and> dv + c < sw)"
      "meet w (improved w (dv + c) (pv @ [w]) s) = Inr s'"
  using assms
  by (auto simp: relax_def Let_def improved_def split: option.splits if_splits)

lemma relax_frame:
  assumes "relax v wc s = Inr s'"
  shows "dists s' = dists s" "dir s' = dir s"
    "fringe s' (\<not> dir s) = fringe s (\<not> dir s)"
    "length (fringe s' (dir s)) \<le> Suc (length (fringe s (dir s)))"
proof -
  obtain w c where wc: "wc = (w, c)" by (cases wc)
  from assms [unfolded wc]
  have "dists s' = dists s \<and> dir s' = dir s \<and> fringe s' (\<not> dir s) = fringe s (\<not> dir s) \<and>
        length (fringe s' (dir s)) \<le> Suc (length (fringe s (dir s)))"
  proof (cases rule: relax_cases)
    case keep
    then show ?thesis by simp
  next
    case (improve dv pv)
    from meet_frame [OF improve(5)] show ?thesis by (simp add: improved_def)
  qed
  then show "dists s' = dists s" "dir s' = dir s"
    "fringe s' (\<not> dir s) = fringe s (\<not> dir s)"
    "length (fringe s' (dir s)) \<le> Suc (length (fringe s (dir s)))"
    by simp_all
qed

lemma for_loop_relax_frame:
  assumes "for_loop (relax v) nbrs s = Inr s'"
  shows "dists s' = dists s \<and> dir s' = dir s \<and> fringe s' (\<not> dir s) = fringe s (\<not> dir s) \<and>
         length (fringe s' (dir s)) \<le> length (fringe s (dir s)) + length nbrs"
  using assms
proof (induction nbrs arbitrary: s)
  case Nil
  then show ?case by simp
next
  case (Cons wc nbrs)
  from Cons.prems obtain s1 where s1: "relax v wc s = Inr s1"
    and r: "for_loop (relax v) nbrs s1 = Inr s'"
    by (auto split: sum.splits)
  from Cons.IH [OF r] relax_frame [OF s1] show ?case by simp
qed

lemma unsettled_degree_drop:
  assumes "(v, nbrs) \<in> set G" "fd v = None"
  shows "sum_list (map (\<lambda>(u, nb). if (fd(v \<mapsto> d)) u = None then length nb else 0) G) + length nbrs
           \<le> sum_list (map (\<lambda>(u, nb). if fd u = None then length nb else 0) G)"
  using assms(1)
proof (induction G)
  case Nil
  then show ?case by simp
next
  case (Cons p G)
  obtain u nb where p: "p = (u, nb)" by (cases p)
  have mono: "sum_list (map (\<lambda>(u, nb). if (fd(v \<mapsto> d)) u = None then length nb else 0) G)
           \<le> sum_list (map (\<lambda>(u, nb). if fd u = None then length nb else 0) G)"
    by (rule sum_list_mono) auto
  show ?case
  proof (cases "p = (v, nbrs)")
    case True
    with mono assms(2) show ?thesis by simp
  next
    case False
    with Cons.prems have "(v, nbrs) \<in> set G" by simp
    from Cons.IH [OF this] show ?thesis by (simp add: p)
  qed
qed

lemma search_size_dir:
  "search_size G s =
     length (fringe s d) + unsettled_degree G (dists s d) +
     (length (fringe s (\<not> d)) + unsettled_degree G (dists s (\<not> d)))"
  by (cases d) (simp_all add: search_size_def)

termination bidirectional_loop
proof (relation "measure (\<lambda>(G, s). search_size G s)")
  show "wf (measure (\<lambda>(G, s). search_size G s))"
    by simp
next
  fix G :: "'a graph" and s s1 :: "'a bidir" and e rest dist kv k v
  assume ne: "fringe s False \<noteq> [] \<and> fringe s True \<noteq> []"
    and hp: "(e, rest) = heappop (fringe s (\<not> dir s))"
    and s1: "s1 = s\<lparr>dir := \<not> dir s, fringe := (fringe s)(\<not> dir s := rest)\<rparr>"
  from ne have "fringe s (\<not> dir s) \<noteq> []" by (cases "dir s") simp_all
  from heappop_mem(3) [OF this hp [symmetric]]
  have "search_size G s1 < search_size G s"
    unfolding search_size_dir [of G s1 "\<not> dir s"] search_size_dir [of G s "\<not> dir s"]
    by (simp add: s1)
  then show "((G, s1), G, s) \<in> measure (\<lambda>(G, s). search_size G s)"
    by simp
next
  fix G :: "'a graph" and s s1 s2 s3 :: "'a bidir" and e rest dist kv k v nbrs
  assume ne: "fringe s False \<noteq> [] \<and> fringe s True \<noteq> []"
    and hp: "(e, rest) = heappop (fringe s (\<not> dir s))"
    and s1: "s1 = s\<lparr>dir := \<not> dir s, fringe := (fringe s)(\<not> dir s := rest)\<rparr>"
    and fd: "\<not> dists s1 (dir s1) v \<noteq> None"
    and s2: "s2 = s1\<lparr>dists := (dists s1)(dir s1 := (dists s1 (dir s1))(v \<mapsto> dist))\<rparr>"
    and mo: "map_of G v = Some nbrs"
    and fl: "for_loop (relax v) nbrs s2 = Inr s3"
  from mo have mem: "(v, nbrs) \<in> set G" by (rule map_of_SomeD)
  from fd s1 have fd': "dists s (\<not> dir s) v = None" by simp
  from ne have "fringe s (\<not> dir s) \<noteq> []" by (cases "dir s") simp_all
  from heappop_mem(3) [OF this hp [symmetric]] have c: "length rest < length (fringe s (\<not> dir s))" .
  have d2: "dir s2 = (\<not> dir s)" by (simp add: s1 s2)
  from for_loop_relax_frame [OF fl]
  have a: "dists s3 = (dists s)(\<not> dir s := (dists s (\<not> dir s))(v \<mapsto> dist))"
    and b: "length (fringe s3 (\<not> dir s)) \<le> length rest + length nbrs"
    and b': "fringe s3 (dir s) = fringe s (dir s)"
    by (simp_all add: d2) (simp_all add: s1 s2)
  from unsettled_degree_drop [of v nbrs G "dists s (\<not> dir s)" dist, OF mem fd']
  have "unsettled_degree G ((dists s (\<not> dir s))(v \<mapsto> dist)) + length nbrs
          \<le> unsettled_degree G (dists s (\<not> dir s))"
    by (simp add: unsettled_degree_def)
  with a b b' c have "search_size G s3 < search_size G s"
    unfolding search_size_dir [of G s3 "\<not> dir s"] search_size_dir [of G s "\<not> dir s"]
    by simp
  then show "((G, s3), G, s) \<in> measure (\<lambda>(G, s). search_size G s)"
    by simp
qed

declare bidirectional_loop.simps [simp del]

section \<open>The search returns a shortest walk\<close>

lemma is_walk_nonempty: "is_walk G p \<Longrightarrow> p \<noteq> []"
  by auto

lemma is_walk_last: "is_walk G p \<Longrightarrow> has_node G (last p)"
  by (induction G p rule: is_walk.induct) auto

lemma get_weight_has_node: "get_weight G u v = Some w \<Longrightarrow> has_node G u"
  by (auto simp: get_weight_def has_node_def split: option.splits)

lemma is_walk_hd: "is_walk G p \<Longrightarrow> has_node G (hd p)"
  by (induction G p rule: is_walk.induct) (auto dest: get_weight_has_node)

lemma walk_weight_nonneg: "nonneg_weights G \<Longrightarrow> 0 \<le> walk_weight G p"
  by (induction G p rule: walk_weight.induct)
     (auto simp: nonneg_weights_def split: option.splits)

lemma is_walk_snoc:
  assumes "is_walk G p" "get_weight G (last p) u = Some w" "has_node G u"
  shows "is_walk G (p @ [u]) \<and> walk_weight G (p @ [u]) = walk_weight G p + w"
  using assms
  by (induction G p rule: is_walk.induct) auto

lemma walk_split:
  assumes "is_walk G (q @ z # r)"
  shows "is_walk G (q @ [z]) \<and> is_walk G (z # r) \<and>
         walk_weight G (q @ z # r) = walk_weight G (q @ [z]) + walk_weight G (z # r)"
  using assms
proof (induction q)
  case Nil
  then show ?case using is_walk_hd [of G "z # r"] by simp
next
  case (Cons a q)
  show ?case
  proof (cases q)
    case Nil
    with Cons.prems have e: "get_weight G a z \<noteq> None" and w: "is_walk G (z # r)" by simp_all
    from is_walk_hd [OF w] have "has_node G z" by simp
    with e w Nil show ?thesis by simp
  next
    case (Cons b q')
    with Cons.prems have e: "get_weight G a b \<noteq> None" and w: "is_walk G (q @ z # r)" by simp_all
    from Cons.IH [OF w] e Cons show ?thesis by simp
  qed
qed

lemma walk_snoc_decomp:
  assumes "q \<noteq> []" "is_walk G (q @ [z])"
  shows "is_walk G q \<and>
         (\<exists>w. get_weight G (last q) z = Some w \<and> walk_weight G (q @ [z]) = walk_weight G q + w)"
  using assms
proof (induction q)
  case Nil
  then show ?case by simp
next
  case (Cons a q)
  show ?case
  proof (cases q)
    case Nil
    with Cons.prems obtain w where w: "get_weight G a z = Some w" by auto
    from get_weight_has_node [OF w] w Nil show ?thesis by simp
  next
    case (Cons b q')
    with Cons.prems have e: "get_weight G a b \<noteq> None" and w: "is_walk G (q @ [z])" by simp_all
    from Cons have "q \<noteq> []" by simp
    from Cons.IH [OF this w] e Cons show ?thesis by auto
  qed
qed

lemma walk_rev:
  assumes "symmetric_weights G" "is_walk G p"
  shows "is_walk G (rev p) \<and> walk_weight G (rev p) = walk_weight G p"
  using assms
proof (induction G p rule: is_walk.induct)
  case (1 G)
  then show ?case by simp
next
  case (2 G u)
  then show ?case by simp
next
  case (3 G u v p)
  from "3.prems"(2) obtain w where w: "get_weight G u v = Some w" and wk: "is_walk G (v # p)"
    by auto
  from "3.IH" [OF "3.prems"(1) wk] have r: "is_walk G (rev (v # p))"
    "walk_weight G (rev (v # p)) = walk_weight G (v # p)" by simp_all
  have l: "last (rev (v # p)) = v" by simp
  from "3.prems"(1) have "get_weight G v u = get_weight G u v"
    unfolding symmetric_weights_def by blast
  with w have "get_weight G v u = Some w" by simp
  with l have "get_weight G (last (rev (v # p))) u = Some w" by simp
  from is_walk_snoc [OF r(1) this get_weight_has_node [OF w]] r(2) w
  show ?case by simp
qed

lemma walk_join:
  assumes "is_walk G p" "is_walk G q" "last p = hd q"
  shows "is_walk G (p @ tl q) \<and> walk_weight G (p @ tl q) = walk_weight G p + walk_weight G q"
  using assms
proof (induction G p rule: is_walk.induct)
  case (1 G)
  then show ?case by simp
next
  case (2 G u)
  from "2.prems"(2) have "q \<noteq> []" by (rule is_walk_nonempty)
  with "2.prems"(3) have "[u] @ tl q = q" by (cases q) simp_all
  with "2.prems" show ?case by simp
next
  case (3 G u v p)
  from "3.prems" have e: "get_weight G u v \<noteq> None" and wk: "is_walk G (v # p)"
    and l: "last (v # p) = hd q" by simp_all
  from "3.IH" [OF wk "3.prems"(2) l] e show ?case by simp
qed

lemma first_outside:
  assumes "p \<noteq> []" "last p \<notin> S"
  shows "\<exists>q z r. p = q @ z # r \<and> set q \<subseteq> S \<and> z \<notin> S"
proof -
  from assms have "\<exists>x \<in> set p. x \<notin> S" using last_in_set by blast
  from split_list_first_prop [OF this]
  obtain q z r where "p = q @ z # r" "z \<notin> S" "\<forall>y \<in> set q. \<not> y \<notin> S" by blast
  then show ?thesis by blast
qed

lemma join_walks:
  assumes sym: "symmetric_weights G"
    and p0: "is_walk G p0" "distinct p0" and p1: "is_walk G p1" "distinct p1"
    and l: "last p0 = last p1" and disj: "set (butlast p0) \<inter> set (butlast p1) = {}"
  shows "is_walk G (p0 @ tl (rev p1))" "hd (p0 @ tl (rev p1)) = hd p0"
    "last (p0 @ tl (rev p1)) = hd p1"
    "walk_weight G (p0 @ tl (rev p1)) = walk_weight G p0 + walk_weight G p1"
    "distinct (p0 @ tl (rev p1))"
proof -
  from p0(1) p1(1) have ne: "p0 \<noteq> []" "p1 \<noteq> []" by (auto dest: is_walk_nonempty)
  from walk_rev [OF sym p1(1)] have r: "is_walk G (rev p1)"
    "walk_weight G (rev p1) = walk_weight G p1" by simp_all
  from ne l have h: "last p0 = hd (rev p1)" by (simp add: hd_rev)
  from walk_join [OF p0(1) r(1) h] r(2)
  show "is_walk G (p0 @ tl (rev p1))"
    "walk_weight G (p0 @ tl (rev p1)) = walk_weight G p0 + walk_weight G p1" by simp_all
  from ne show "hd (p0 @ tl (rev p1)) = hd p0" by simp
  have t: "tl (rev p1) = rev (butlast p1)"
    using ne(2) by (metis append_butlast_last_id rev.simps(2) rev_append rev_rev_ident
        append_Cons append_Nil list.sel(3) rev_singleton_conv)
  show "last (p0 @ tl (rev p1)) = hd p1"
  proof (cases "butlast p1 = []")
    case True
    with ne(2) have "p1 = [last p1]" by (metis append_butlast_last_id append_Nil)
    then have "hd p1 = last p1" by (metis list.sel(1))
    with True t l show ?thesis by simp
  next
    case False
    then have "last (rev (butlast p1)) = hd (butlast p1)" by (simp add: last_rev)
    also have "\<dots> = hd p1" using False ne(2) by (metis append_butlast_last_id hd_append2)
    finally show ?thesis using False t by simp
  qed
  have d0: "p0 = butlast p0 @ [last p0]" using ne(1) by simp
  have d1: "p1 = butlast p1 @ [last p1]" using ne(2) by simp
  from p0(2) d0 have a: "distinct (butlast p0)" "last p0 \<notin> set (butlast p0)"
    by (metis distinct_butlast p0(2)) (metis d0 distinct_append distinct.simps(2) disjoint_iff list.set_intros(1) p0(2))
  from p1(2) d1 have b: "distinct (butlast p1)" "last p1 \<notin> set (butlast p1)"
    by (metis distinct_butlast p1(2)) (metis d1 distinct_append distinct.simps(2) disjoint_iff list.set_intros(1) p1(2))
  have "distinct (butlast p0 @ [last p0] @ rev (butlast p1))"
    using a b l disj by auto
  with d0 t show "distinct (p0 @ tl (rev p1))" by (metis append_assoc)
qed

lemma wf_graph_neighbours:
  assumes "wf_graph G" "map_of G v = Some nbrs"
  shows "\<forall>(u, w) \<in> set nbrs. get_weight G v u = Some w \<and> has_node G u"
    and "get_weight G v u = Some w \<Longrightarrow> u \<in> fst ` set nbrs"
proof -
  from assms have d: "distinct (map fst nbrs)" and h: "fst ` set nbrs \<subseteq> Collect (has_node G)"
    unfolding wf_graph_def by blast+
  show "\<forall>(u, w) \<in> set nbrs. get_weight G v u = Some w \<and> has_node G u"
  proof (clarify, intro conjI)
    fix u w assume m: "(u, w) \<in> set nbrs"
    with d have "map_of nbrs u = Some w" by simp
    then show "get_weight G v u = Some w" by (simp add: get_weight_def assms(2))
    from m h show "has_node G u" by force
  qed
  assume "get_weight G v u = Some w"
  then have "map_of nbrs u = Some w" by (simp add: get_weight_def assms(2))
  then have "(u, w) \<in> set nbrs" by (rule map_of_SomeD)
  then show "u \<in> fst ` set nbrs" by force
qed

lemma heappop_least:
  assumes "h \<noteq> []" "heappop h = ((d, k, v), rest)" "(d', k', u) \<in> set h"
  shows "d \<le> d'"
proof -
  from heappop_mem(4) [OF assms(1,2)] assms(3) have "(d, k) \<le> (d', k')" by force
  then show ?thesis by (auto simp: less_eq_prod_def)
qed

lemma in_rest:
  assumes "heappop h = ((d, k, v), rest)" "h \<noteq> []" "(d', k', u) \<in> set h" "u \<noteq> v"
  shows "(d', k', u) \<in> set rest"
proof -
  from heappop_mem(2) [OF assms(2,1)] have "rest = remove1 (d, k, v) h" .
  with assms(3,4) show ?thesis by simp
qed

lemma rest_subset:
  assumes "heappop h = (e, rest)" "h \<noteq> []" "x \<in> set rest"
  shows "x \<in> set h"
  using heappop_mem(2) [OF assms(2,1)] assms(3) set_remove1_subset [of e h] by auto

lemma search_invI:
  assumes "sn x = Some 0"
    and "\<And>u d. sn u = Some d \<Longrightarrow> reached G x dst pth u d"
    and "\<And>v d. dst v = Some d \<Longrightarrow> sn v = Some d"
    and "\<And>v d p. dst v = Some d \<Longrightarrow> is_walk G p \<Longrightarrow> hd p = x \<Longrightarrow> last p = v
           \<Longrightarrow> d \<le> walk_weight G p"
    and "\<And>u d. sn u = Some d \<Longrightarrow> dst u = None \<Longrightarrow> \<exists>k. (d, k, u) \<in> set fr"
    and "\<And>d k u. (d, k, u) \<in> set fr \<Longrightarrow> \<exists>d'. sn u = Some d' \<and> d' \<le> d"
    and "\<And>v dv u w. dst v = Some dv \<Longrightarrow> get_weight G v u = Some w \<Longrightarrow> (v, u) \<notin> pend
           \<Longrightarrow> \<exists>d'. sn u = Some d' \<and> d' \<le> dv + w"
    and "\<And>v dv d k u. dst v = Some dv \<Longrightarrow> (d, k, u) \<in> set fr \<Longrightarrow> dv \<le> d"
    and "dst = Map.empty \<Longrightarrow> \<exists>k. fr = [(0, k, x)]"
    and "dst \<noteq> Map.empty \<Longrightarrow> dst x \<noteq> None"
  shows "search_inv G x pend dst sn pth fr"
  unfolding search_inv_def
proof (intro conjI allI impI)
  show "sn x = Some 0" by (rule assms(1))
  show "reached G x dst pth u d" if "sn u = Some d" for u d
    using that by (rule assms(2))
  show "sn v = Some d" if "dst v = Some d" for v d
    using that by (rule assms(3))
  show "d \<le> walk_weight G p"
    if "dst v = Some d" "is_walk G p \<and> hd p = x \<and> last p = v" for v d p
    using that assms(4) [of v d p] by simp
  show "\<exists>k. (d, k, u) \<in> set fr" if "sn u = Some d \<and> dst u = None" for u d
    using that assms(5) [of u d] by simp
  show "\<exists>d'. sn u = Some d' \<and> d' \<le> d" if "(d, k, u) \<in> set fr" for d k u
    using that by (rule assms(6))
  show "\<exists>d'. sn u = Some d' \<and> d' \<le> dv + w"
    if "dst v = Some dv \<and> get_weight G v u = Some w \<and> (v, u) \<notin> pend" for v dv u w
    using that assms(7) [of v dv u w] by simp
  show "dv \<le> d" if "dst v = Some dv \<and> (d, k, u) \<in> set fr" for v dv d k u
    using that assms(8) [of v dv d k u] by simp
  show "\<exists>k. fr = [(0, k, x)]" if "dst = Map.empty"
    using that by (rule assms(9))
  show "dst x \<noteq> None" if "dst \<noteq> Map.empty"
    using that by (rule assms(10))
qed

lemma search_inv_origin: "search_inv G x pend dst sn pth fr \<Longrightarrow> sn x = Some 0"
  unfolding search_inv_def by blast

lemma search_inv_reached:
  "search_inv G x pend dst sn pth fr \<Longrightarrow> sn u = Some d \<Longrightarrow> reached G x dst pth u d"
  unfolding search_inv_def by blast

lemma search_inv_final_seen:
  "search_inv G x pend dst sn pth fr \<Longrightarrow> dst v = Some d \<Longrightarrow> sn v = Some d"
  unfolding search_inv_def by blast

lemma search_inv_final_least:
  "search_inv G x pend dst sn pth fr \<Longrightarrow> dst v = Some d \<Longrightarrow>
     is_walk G p \<Longrightarrow> hd p = x \<Longrightarrow> last p = v \<Longrightarrow> d \<le> walk_weight G p"
  unfolding search_inv_def by blast

lemma search_inv_in_fringe:
  "search_inv G x pend dst sn pth fr \<Longrightarrow> sn u = Some d \<Longrightarrow> dst u = None \<Longrightarrow>
     \<exists>k. (d, k, u) \<in> set fr"
  unfolding search_inv_def by blast

lemma search_inv_fringe_seen:
  "search_inv G x pend dst sn pth fr \<Longrightarrow> (d, k, u) \<in> set fr \<Longrightarrow>
     \<exists>d'. sn u = Some d' \<and> d' \<le> d"
  unfolding search_inv_def by blast

lemma search_inv_relaxed:
  "search_inv G x pend dst sn pth fr \<Longrightarrow> dst v = Some dv \<Longrightarrow> get_weight G v u = Some w \<Longrightarrow>
     (v, u) \<notin> pend \<Longrightarrow> \<exists>d'. sn u = Some d' \<and> d' \<le> dv + w"
  unfolding search_inv_def by blast

lemma search_inv_fringe_above:
  "search_inv G x pend dst sn pth fr \<Longrightarrow> dst v = Some dv \<Longrightarrow> (d, k, u) \<in> set fr \<Longrightarrow> dv \<le> d"
  unfolding search_inv_def by blast

lemma search_inv_first:
  "search_inv G x pend dst sn pth fr \<Longrightarrow> dst = Map.empty \<Longrightarrow> \<exists>k. fr = [(0, k, x)]"
  unfolding search_inv_def by blast

lemma search_inv_origin_final:
  "search_inv G x pend dst sn pth fr \<Longrightarrow> dst \<noteq> Map.empty \<Longrightarrow> dst x \<noteq> None"
  unfolding search_inv_def by blast

lemma search_inv_change_pend:
  assumes "search_inv G x pend dst sn pth fr"
    and "\<And>v dv u w. dst v = Some dv \<Longrightarrow> get_weight G v u = Some w \<Longrightarrow> (v, u) \<notin> pend'
           \<Longrightarrow> \<exists>d'. sn u = Some d' \<and> d' \<le> dv + w"
  shows "search_inv G x pend' dst sn pth fr"
proof (rule search_invI)
  show "sn x = Some 0" by (rule search_inv_origin [OF assms(1)])
qed (fact search_inv_reached [OF assms(1)] search_inv_final_seen [OF assms(1)]
      search_inv_final_least [OF assms(1)] search_inv_in_fringe [OF assms(1)]
      search_inv_fringe_seen [OF assms(1)] assms(2) search_inv_fringe_above [OF assms(1)]
      search_inv_first [OF assms(1)] search_inv_origin_final [OF assms(1)])+

lemma reached_mono:
  assumes "reached G x dst pth u d" "dom dst \<subseteq> dom dst'"
  shows "reached G x dst' pth u d"
  using assms unfolding reached_def by blast

lemma search_relax_known:
  assumes inv: "search_inv G x pend dst sn pth fr"
    and fv: "dst v = Some dv" and e: "get_weight G v u = Some w"
    and su: "sn u = Some su" "su \<le> dv + w"
  shows "search_inv G x (pend - {(v, u)}) dst sn pth fr"
proof (rule search_inv_change_pend [OF inv])
  fix v' dv' u' w'
  assume h: "dst v' = Some dv'" "get_weight G v' u' = Some w'" "(v', u') \<notin> pend - {(v, u)}"
  show "\<exists>d'. sn u' = Some d' \<and> d' \<le> dv' + w'"
  proof (cases "(v', u') = (v, u)")
    case True
    with h fv e su show ?thesis by simp
  next
    case False
    with h(3) have "(v', u') \<notin> pend" by auto
    from search_inv_relaxed [OF inv h(1,2) this] show ?thesis .
  qed
qed

lemma search_path_snoc:
  assumes inv: "search_inv G x pend dst sn pth fr"
    and fv: "dst v = Some dv" and e: "get_weight G v u = Some w" and hu: "has_node G u"
  obtains pv where "pth v = Some pv" "is_walk G (pv @ [u])" "walk_weight G (pv @ [u]) = dv + w"
    "hd (pv @ [u]) = x" "distinct pv" "set pv \<subseteq> dom dst" "walk_weight G pv = dv"
proof -
  from search_inv_final_seen [OF inv fv] have sv: "sn v = Some dv" .
  from search_inv_reached [OF inv sv]
  obtain pv where pv: "pth v = Some pv" "is_walk G pv" "hd pv = x" "last pv = v"
    "walk_weight G pv = dv" "distinct pv" "set (butlast pv) \<subseteq> dom dst"
    unfolding reached_def by blast
  from pv(2) have pvne: "pv \<noteq> []" by (rule is_walk_nonempty)
  from is_walk_snoc [OF pv(2) _ hu, of w] e pv(4,5)
  have pu: "is_walk G (pv @ [u])" "walk_weight G (pv @ [u]) = dv + w" by simp_all
  from pvne pv(3) have hdpu: "hd (pv @ [u]) = x" by simp
  have "set pv = set (butlast pv) \<union> {last pv}"
    using pvne by (metis append_butlast_last_id set_append list.simps(15) empty_set)
  with pv(4,7) fv have setpv: "set pv \<subseteq> dom dst"
    by auto
  from that [OF pv(1) pu hdpu pv(6) setpv pv(5)] show thesis .
qed

lemma search_settled_le:
  assumes inv: "search_inv G x pend dst sn pth fr"
    and fv: "dst v = Some dv" and e: "get_weight G v u = Some w" and hu: "has_node G u"
    and fu: "dst u = Some du"
  shows "du \<le> dv + w"
proof -
  from search_path_snoc [OF inv fv e hu]
  obtain pv where pv: "is_walk G (pv @ [u])" "walk_weight G (pv @ [u]) = dv + w"
    "hd (pv @ [u]) = x" by blast
  from search_inv_final_least [OF inv fu pv(1,3)] pv(2) show ?thesis by simp
qed

lemma search_relax_improve:
  assumes inv: "search_inv G x pend dst sn pth fr"
    and nn: "nonneg_weights G"
    and fv: "dst v = Some dv" and e: "get_weight G v u = Some w" and hu: "has_node G u"
    and fu: "dst u = None"
    and imp: "sn u = None \<or> (\<exists>su. sn u = Some su \<and> dv + w < su)"
    and maxs: "\<forall>v' a. dst v' = Some a \<longrightarrow> a \<le> dv"
    and pv: "pth v = Some pv"
  shows "search_inv G x (pend - {(v, u)}) dst (sn(u \<mapsto> dv + w)) (pth(u \<mapsto> pv @ [u]))
           (fr @ [(dv + w, c, u)])"
proof -
  from search_path_snoc [OF inv fv e hu] pv
  have pu: "is_walk G (pv @ [u])" "walk_weight G (pv @ [u]) = dv + w"
    "hd (pv @ [u]) = x" "distinct pv" "set pv \<subseteq> dom dst" "walk_weight G pv = dv"
    by auto
  from walk_weight_nonneg [OF nn, of pv] pu(6) have d0: "0 \<le> dv" by simp
  from nn e have w0: "0 \<le> w" by (auto simp: nonneg_weights_def)
  have lower: "dv + w \<le> su" if "sn u = Some su" for su
    using imp that by auto
  have ux: "u \<noteq> x"
  proof
    assume "u = x"
    with search_inv_origin [OF inv] have s0: "sn u = Some 0" by simp
    with imp have "dv + w < 0" by auto
    with d0 w0 show False by simp
  qed
  have unot: "u \<notin> set pv" using pu(5) fu by auto
  show ?thesis
  proof (rule search_invI)
    show "(sn(u \<mapsto> dv + w)) x = Some 0"
      using search_inv_origin [OF inv] ux by simp
  next
    fix u' d' assume h: "(sn(u \<mapsto> dv + w)) u' = Some d'"
    show "reached G x dst (pth(u \<mapsto> pv @ [u])) u' d'"
    proof (cases "u' = u")
      case True
      with h have "d' = dv + w" by simp
      with True pu unot show ?thesis by (simp add: reached_def)
    next
      case False
      with h have "sn u' = Some d'" by simp
      from search_inv_reached [OF inv this] False show ?thesis by (simp add: reached_def)
    qed
  next
    fix v' d' assume f: "dst v' = Some d'"
    with fu have "v' \<noteq> u" by auto
    with search_inv_final_seen [OF inv f] show "(sn(u \<mapsto> dv + w)) v' = Some d'" by simp
  next
    fix v' d' p assume "dst v' = Some d'" "is_walk G p" "hd p = x" "last p = v'"
    then show "d' \<le> walk_weight G p"
      by (rule search_inv_final_least [OF inv])
  next
    fix u' d' assume h: "(sn(u \<mapsto> dv + w)) u' = Some d'" "dst u' = None"
    show "\<exists>k. (d', k, u') \<in> set (fr @ [(dv + w, c, u)])"
    proof (cases "u' = u")
      case True
      with h have "d' = dv + w" by simp
      with True show ?thesis by auto
    next
      case False
      with h have "sn u' = Some d'" by simp
      from search_inv_in_fringe [OF inv this h(2)] show ?thesis by auto
    qed
  next
    fix d' k u' assume h: "(d', k, u') \<in> set (fr @ [(dv + w, c, u)])"
    show "\<exists>d''. (sn(u \<mapsto> dv + w)) u' = Some d'' \<and> d'' \<le> d'"
    proof (cases "(d', k, u') \<in> set fr")
      case True
      from search_inv_fringe_seen [OF inv True]
      obtain d'' where d'': "sn u' = Some d''" "d'' \<le> d'" by blast
      show ?thesis
      proof (cases "u' = u")
        case True
        with d'' lower [of d''] show ?thesis by simp
      next
        case False
        with d'' show ?thesis by simp
      qed
    next
      case False
      with h have "d' = dv + w" "u' = u" by simp_all
      then show ?thesis by simp
    qed
  next
    fix v' dv' u' w'
    assume h: "dst v' = Some dv'" "get_weight G v' u' = Some w'" "(v', u') \<notin> pend - {(v, u)}"
    show "\<exists>d'. (sn(u \<mapsto> dv + w)) u' = Some d' \<and> d' \<le> dv' + w'"
    proof (cases "(v', u') = (v, u)")
      case True
      with h(1,2) fv e show ?thesis by simp
    next
      case False
      with h(3) have "(v', u') \<notin> pend" by auto
      from search_inv_relaxed [OF inv h(1,2) this]
      obtain d' where d': "sn u' = Some d'" "d' \<le> dv' + w'" by blast
      show ?thesis
      proof (cases "u' = u")
        case True
        with d' lower [of d'] show ?thesis by simp
      next
        case False
        with d' show ?thesis by simp
      qed
    qed
  next
    fix v' dv' d' k u' assume h: "dst v' = Some dv'" "(d', k, u') \<in> set (fr @ [(dv + w, c, u)])"
    show "dv' \<le> d'"
    proof (cases "(d', k, u') \<in> set fr")
      case True
      from search_inv_fringe_above [OF inv h(1) True] show ?thesis .
    next
      case False
      with h(2) have "d' = dv + w" by simp
      with maxs h(1) w0 show ?thesis by fastforce
    qed
  next
    assume "dst = Map.empty"
    with fv show "\<exists>k. fr @ [(dv + w, c, u)] = [(0, k, x)]" by simp
  next
    assume "dst \<noteq> Map.empty"
    then show "dst x \<noteq> None" by (rule search_inv_origin_final [OF inv])
  qed
qed

lemma exit_bound:
  assumes inv: "search_inv G x {} dst sn pth fr"
    and p: "is_walk G p" "hd p = x" "dst (last p) = None"
  obtains q z r d where "p = q @ z # r" "dst z = None" "sn z = Some d"
    "d \<le> walk_weight G (q @ [z])" "is_walk G (z # r)"
    "walk_weight G p = walk_weight G (q @ [z]) + walk_weight G (z # r)"
proof -
  from p(1) have ne: "p \<noteq> []" by (rule is_walk_nonempty)
  from p(3) have "last p \<notin> dom dst" by auto
  from first_outside [OF ne this]
  obtain q z r where s: "p = q @ z # r" "set q \<subseteq> dom dst" "z \<notin> dom dst" by blast
  from s(3) have fz: "dst z = None" by auto
  from walk_split [OF p(1) [unfolded s(1)]]
  have w: "is_walk G (q @ [z])" "is_walk G (z # r)"
    "walk_weight G p = walk_weight G (q @ [z]) + walk_weight G (z # r)"
    by (simp_all add: s(1))
  have "\<exists>d. sn z = Some d \<and> d \<le> walk_weight G (q @ [z])"
  proof (cases "q = []")
    case True
    with s(1) p(2) have "z = x" by simp
    with search_inv_origin [OF inv] True show ?thesis by simp
  next
    case False
    from walk_snoc_decomp [OF False w(1)]
    obtain c where c: "is_walk G q" "get_weight G (last q) z = Some c"
      "walk_weight G (q @ [z]) = walk_weight G q + c" by blast
    from False s(2) have "last q \<in> dom dst" using last_in_set by blast
    then obtain a where a: "dst (last q) = Some a" by auto
    from False s(1) p(2) have "hd q = x" by simp
    from search_inv_final_least [OF inv a c(1) this] have 1: "a \<le> walk_weight G q" by simp
    from search_inv_relaxed [OF inv a c(2)]
    obtain d where "sn z = Some d" "d \<le> a + c" by auto
    with 1 c(3) show ?thesis by simp
  qed
  then obtain d where "sn z = Some d" "d \<le> walk_weight G (q @ [z])" by blast
  from that [OF s(1) fz this w(2,3)] show thesis .
qed

lemma settle_least:
  assumes inv: "search_inv G x {} dst sn pth fr" and nn: "nonneg_weights G"
    and ne: "fr \<noteq> []" and hp: "heappop fr = ((d, k, v), rest)"
    and fd: "dst v = None"
  shows "sn v = Some d"
    and "\<And>p. is_walk G p \<Longrightarrow> hd p = x \<Longrightarrow> last p = v \<Longrightarrow> d \<le> walk_weight G p"
proof -
  from heappop_mem(1) [OF ne hp] have mem: "(d, k, v) \<in> set fr" .
  from search_inv_fringe_seen [OF inv mem]
  obtain d' where d': "sn v = Some d'" "d' \<le> d" by blast
  from search_inv_in_fringe [OF inv d'(1) fd] obtain k' where "(d', k', v) \<in> set fr"
    by blast
  from heappop_least [OF ne hp this] d'(2) have "d' = d" by simp
  with d'(1) show sv: "sn v = Some d" by simp
  fix p assume p: "is_walk G p" "hd p = x" "last p = v"
  from p(3) fd have l: "dst (last p) = None" by simp
  obtain q z r dz where z: "dst z = None" "sn z = Some dz" "dz \<le> walk_weight G (q @ [z])"
    "walk_weight G p = walk_weight G (q @ [z]) + walk_weight G (z # r)"
    by (rule exit_bound [OF inv p(1,2) l]) (rule that, assumption+)
  from search_inv_in_fringe [OF inv z(2,1)] obtain kz where "(dz, kz, z) \<in> set fr" by blast
  from heappop_least [OF ne hp this] have "d \<le> dz" .
  with z(3,4) walk_weight_nonneg [OF nn, of "z # r"] show "d \<le> walk_weight G p" by simp
qed

lemma unsettled_bound:
  assumes inv: "search_inv G x {} dst sn pth fr" and nn: "nonneg_weights G"
    and p: "is_walk G p" "hd p = x" "dst (last p) = None"
    and fv: "dst v = Some a"
  shows "a \<le> walk_weight G p"
proof -
  obtain q z r dz where z: "dst z = None" "sn z = Some dz" "dz \<le> walk_weight G (q @ [z])"
    "walk_weight G p = walk_weight G (q @ [z]) + walk_weight G (z # r)"
    by (rule exit_bound [OF inv p]) (rule that, assumption+)
  from search_inv_in_fringe [OF inv z(2,1)] obtain kz where "(dz, kz, z) \<in> set fr" by blast
  from search_inv_fringe_above [OF inv fv this] have "a \<le> dz" .
  with z(3,4) walk_weight_nonneg [OF nn, of "z # r"] show ?thesis by simp
qed

lemma search_skip:
  assumes inv: "search_inv G x {} dst sn pth fr"
    and ne: "fr \<noteq> []" and hp: "heappop fr = ((d, k, v), rest)"
    and fd: "dst v \<noteq> None"
  shows "search_inv G x {} dst sn pth rest"
proof (rule search_invI)
  show "sn x = Some 0" by (rule search_inv_origin [OF inv])
next
  fix u d' assume "sn u = Some d'"
  then show "reached G x dst pth u d'" by (rule search_inv_reached [OF inv])
next
  fix v' d' assume "dst v' = Some d'"
  then show "sn v' = Some d'" by (rule search_inv_final_seen [OF inv])
next
  fix v' d' p
  assume "dst v' = Some d'" "is_walk G p" "hd p = x" "last p = v'"
  then show "d' \<le> walk_weight G p" by (rule search_inv_final_least [OF inv])
next
  fix u d' assume h: "sn u = Some d'" "dst u = None"
  from search_inv_in_fringe [OF inv this] obtain k' where k': "(d', k', u) \<in> set fr"
    by blast
  from h(2) fd have "u \<noteq> v" by auto
  from in_rest [OF hp ne k' this] show "\<exists>k. (d', k, u) \<in> set rest"
    by auto
next
  fix d' k' u assume "(d', k', u) \<in> set rest"
  then have "(d', k', u) \<in> set fr" using rest_subset [OF hp ne] by simp
  from search_inv_fringe_seen [OF inv this]
  show "\<exists>d''. sn u = Some d'' \<and> d'' \<le> d'" .
next
  fix v' dv u w
  assume "dst v' = Some dv" "get_weight G v' u = Some w" "(v', u) \<notin> {}"
  then show "\<exists>d'. sn u = Some d' \<and> d' \<le> dv + w"
    by (rule search_inv_relaxed [OF inv])
next
  fix v' dv d' k' u assume h: "dst v' = Some dv" "(d', k', u) \<in> set rest"
  then have "(d', k', u) \<in> set fr" using rest_subset [OF hp ne] by simp
  from search_inv_fringe_above [OF inv h(1) this] show "dv \<le> d'" .
next
  assume "dst = Map.empty"
  with fd show "\<exists>k. rest = [(0, k, x)]" by simp
next
  assume "dst \<noteq> Map.empty"
  then show "dst x \<noteq> None" by (rule search_inv_origin_final [OF inv])
qed

lemma first_pop:
  assumes inv: "search_inv G x {} dst sn pth fr"
    and ne: "fr \<noteq> []" and hp: "heappop fr = ((d, k, v), rest)"
    and e: "dst = Map.empty"
  shows "v = x"
proof -
  from search_inv_first [OF inv e] obtain k0 where "fr = [(0, k0, x)]" by blast
  with heappop_mem(1) [OF ne hp] show ?thesis by simp
qed

lemma search_settle:
  assumes inv: "search_inv G x {} dst sn pth fr" and nn: "nonneg_weights G"
    and ne: "fr \<noteq> []" and hp: "heappop fr = ((d, k, v), rest)"
    and fd: "dst v = None"
  shows "search_inv G x ({v} \<times> UNIV) (dst(v \<mapsto> d)) sn pth rest"
proof (rule search_invI)
  note least = settle_least [OF inv nn ne hp fd]
  show "sn x = Some 0" by (rule search_inv_origin [OF inv])
  show "reached G x (dst(v \<mapsto> d)) pth u d'" if "sn u = Some d'" for u d'
    using reached_mono [OF search_inv_reached [OF inv that], of "dst(v \<mapsto> d)"] by auto
  show "sn v' = Some d'" if "(dst(v \<mapsto> d)) v' = Some d'" for v' d'
  proof (cases "v' = v")
    case True
    with that least(1) show ?thesis by simp
  next
    case False
    with that search_inv_final_seen [OF inv, of v' d'] show ?thesis by simp
  qed
  show "d' \<le> walk_weight G p"
    if "(dst(v \<mapsto> d)) v' = Some d'" "is_walk G p" "hd p = x" "last p = v'" for v' d' p
  proof (cases "v' = v")
    case True
    with that least(2) [of p] show ?thesis by simp
  next
    case False
    with that search_inv_final_least [OF inv, of v' d' p] show ?thesis by simp
  qed
  show "\<exists>k'. (d', k', u) \<in> set rest"
    if h: "sn u = Some d'" "(dst(v \<mapsto> d)) u = None" for u d'
  proof -
    from h(2) have uv: "u \<noteq> v" by (auto split: if_splits)
    with h have "dst u = None" by simp
    from search_inv_in_fringe [OF inv h(1) this] obtain k' where "(d', k', u) \<in> set fr"
      by blast
    from in_rest [OF hp ne this uv] show ?thesis by auto
  qed
  show "\<exists>d''. sn u = Some d'' \<and> d'' \<le> d'" if "(d', k', u) \<in> set rest" for d' k' u
  proof -
    from that have "(d', k', u) \<in> set fr" using rest_subset [OF hp ne] by simp
    from search_inv_fringe_seen [OF inv this] show ?thesis .
  qed
  show "\<exists>d'. sn u = Some d' \<and> d' \<le> dv + w"
    if "(dst(v \<mapsto> d)) v' = Some dv" "get_weight G v' u = Some w" "(v', u) \<notin> {v} \<times> UNIV"
    for v' dv u w
  proof -
    from that(3) have "v' \<noteq> v" by simp
    with that(1) have "dst v' = Some dv" by simp
    from search_inv_relaxed [OF inv this that(2)] show ?thesis by simp
  qed
  show "dv \<le> d'" if h: "(dst(v \<mapsto> d)) v' = Some dv" "(d', k', u) \<in> set rest" for v' dv d' k' u
  proof -
    from h(2) have m: "(d', k', u) \<in> set fr" using rest_subset [OF hp ne] by simp
    show ?thesis
    proof (cases "v' = v")
      case True
      with h(1) heappop_least [OF ne hp m] show ?thesis by simp
    next
      case False
      with h(1) have "dst v' = Some dv" by simp
      from search_inv_fringe_above [OF inv this m] show ?thesis .
    qed
  qed
  show "\<exists>k. rest = [(0, k, x)]" if "dst(v \<mapsto> d) = Map.empty"
    using that by simp
  show "(dst(v \<mapsto> d)) x \<noteq> None" if "dst(v \<mapsto> d) \<noteq> Map.empty"
  proof (cases "dst = Map.empty")
    case True
    from first_pop [OF inv ne hp True] show ?thesis by simp
  next
    case False
    from search_inv_origin_final [OF inv False] show ?thesis by simp
  qed
qed

lemma settle_max:
  assumes inv: "search_inv G x {} dst sn pth fr"
    and ne: "fr \<noteq> []" and hp: "heappop fr = ((d, k, v), rest)"
    and a: "(dst(v \<mapsto> d)) v' = Some a"
  shows "a \<le> d"
proof (cases "v' = v")
  case True
  with a show ?thesis by simp
next
  case False
  with a have "dst v' = Some a" by simp
  from search_inv_fringe_above [OF inv this heappop_mem(1) [OF ne hp]] show ?thesis .
qed

lemma exhausted_closed:
  assumes inv: "search_inv G x {} dst sn pth []"
    and p: "is_walk G p" "hd p = x"
  shows "dst (last p) \<noteq> None"
proof
  assume l: "dst (last p) = None"
  obtain z dz where z: "dst z = None" "sn z = Some dz"
    by (rule exit_bound [OF inv p l]) (rule that, assumption+)
  from search_inv_in_fringe [OF inv z(2,1)] show False by simp
qed

lemma sides_inv_active:
  "sides_inv G src tgt pend s \<Longrightarrow>
     search_inv G (origin src tgt (dir s)) pend
       (dists s (dir s)) (seen s (dir s)) (paths s (dir s)) (fringe s (dir s))"
  unfolding sides_inv_def by (drule spec [of _ "dir s"]) simp

lemma sides_inv_passive:
  "sides_inv G src tgt pend s \<Longrightarrow>
     search_inv G (origin src tgt (\<not> dir s)) {}
       (dists s (\<not> dir s)) (seen s (\<not> dir s)) (paths s (\<not> dir s)) (fringe s (\<not> dir s))"
  unfolding sides_inv_def by (drule spec [of _ "\<not> dir s"]) simp

lemma sides_invI:
  assumes "search_inv G (origin src tgt (dir s)) pend
       (dists s (dir s)) (seen s (dir s)) (paths s (dir s)) (fringe s (dir s))"
    and "search_inv G (origin src tgt (\<not> dir s)) {}
       (dists s (\<not> dir s)) (seen s (\<not> dir s)) (paths s (\<not> dir s)) (fringe s (\<not> dir s))"
  shows "sides_inv G src tgt pend s"
  unfolding sides_inv_def
proof
  fix d
  show "search_inv G (origin src tgt d) (if d = dir s then pend else {})
            (dists s d) (seen s d) (paths s d) (fringe s d)"
  proof (cases "d = dir s")
    case True
    with assms(1) show ?thesis by simp
  next
    case False
    then have "d = (\<not> dir s)" by auto
    with assms(2) False show ?thesis by simp
  qed
qed

lemma sides_inv_any:
  "sides_inv G src tgt {} s \<Longrightarrow>
     search_inv G (origin src tgt d) {} (dists s d) (seen s d) (paths s d) (fringe s d)"
  unfolding sides_inv_def by (drule spec [of _ d]) simp

lemma sides_inv_reached:
  assumes "sides_inv G src tgt pend s" "seen s d u = Some a"
  shows "reached G (origin src tgt d) (dists s d) (paths s d) u a"
proof -
  from assms(1) have "search_inv G (origin src tgt d) (if d = dir s then pend else {})
            (dists s d) (seen s d) (paths s d) (fringe s d)"
    unfolding sides_inv_def by blast
  from search_inv_reached [OF this assms(2)] show ?thesis .
qed

lemma sides_inv_cong:
  assumes "sides_inv G src tgt pend s"
    and "dists s' = dists s" "seen s' = seen s" "paths s' = paths s" "fringe s' = fringe s"
      "dir s' = dir s"
  shows "sides_inv G src tgt pend s'"
  using assms unfolding sides_inv_def by simp

lemma meet_invI:
  assumes "dom (dists s False) \<inter> dom (dists s True) = {}"
    and "finalpath s \<noteq> [] \<Longrightarrow>
         \<exists>fd. finaldist s = Some fd \<and> is_walk G (finalpath s) \<and> hd (finalpath s) = src \<and>
               last (finalpath s) = tgt \<and> walk_weight G (finalpath s) = fd \<and>
               distinct (finalpath s)"
    and "\<And>w a b. seen s False w = Some a \<Longrightarrow> seen s True w = Some b \<Longrightarrow>
         finalpath s \<noteq> [] \<and> (\<exists>fd. finaldist s = Some fd \<and> fd \<le> a + b)"
  shows "meet_inv G src tgt s"
  unfolding meet_inv_def
proof (intro conjI allI impI)
  show "dom (dists s False) \<inter> dom (dists s True) = {}" by (rule assms(1))
  show "\<exists>fd. finaldist s = Some fd \<and> is_walk G (finalpath s) \<and> hd (finalpath s) = src \<and>
               last (finalpath s) = tgt \<and> walk_weight G (finalpath s) = fd \<and>
               distinct (finalpath s)" if "finalpath s \<noteq> []"
    using that by (rule assms(2))
  show "finalpath s \<noteq> []" if "seen s False w = Some a \<and> seen s True w = Some b" for w a b
    using that assms(3) [of w a b] by simp
  show "\<exists>fd. finaldist s = Some fd \<and> fd \<le> a + b"
    if "seen s False w = Some a \<and> seen s True w = Some b" for w a b
    using that assms(3) [of w a b] by simp
qed

lemma meet_inv_disjoint:
  "meet_inv G src tgt s \<Longrightarrow> dom (dists s False) \<inter> dom (dists s True) = {}"
  unfolding meet_inv_def by blast

lemma meet_inv_path:
  "meet_inv G src tgt s \<Longrightarrow> finalpath s \<noteq> [] \<Longrightarrow>
     \<exists>fd. finaldist s = Some fd \<and> is_walk G (finalpath s) \<and> hd (finalpath s) = src \<and>
          last (finalpath s) = tgt \<and> walk_weight G (finalpath s) = fd \<and> distinct (finalpath s)"
  unfolding meet_inv_def by blast

lemma meet_inv_both:
  "meet_inv G src tgt s \<Longrightarrow> seen s False w = Some a \<Longrightarrow> seen s True w = Some b \<Longrightarrow>
     finalpath s \<noteq> [] \<and> (\<exists>fd. finaldist s = Some fd \<and> fd \<le> a + b)"
  unfolding meet_inv_def by blast

lemma meet_inv_both_dir:
  assumes "meet_inv G src tgt s" "seen s d w = Some a" "seen s (\<not> d) w = Some b"
  shows "finalpath s \<noteq> [] \<and> (\<exists>fd. finaldist s = Some fd \<and> fd \<le> a + b)"
proof (cases d)
  case True
  with assms meet_inv_both [OF assms(1), of w b a] show ?thesis by (simp add: add.commute)
next
  case False
  with assms meet_inv_both [OF assms(1), of w a b] show ?thesis by simp
qed

lemma meet_inv_disjoint_dir:
  assumes "meet_inv G src tgt s" "dists s d v = Some a"
  shows "dists s (\<not> d) v = None"
proof (cases d)
  case True
  with assms(2) meet_inv_disjoint [OF assms(1)] show ?thesis by auto
next
  case False
  with assms(2) meet_inv_disjoint [OF assms(1)] show ?thesis by auto
qed

lemma meet_keeps_inv:
  assumes sides: "sides_inv G src tgt pend s" and sym: "symmetric_weights G"
    and disj: "dom (dists s False) \<inter> dom (dists s True) = {}"
    and fp0: "finalpath s \<noteq> [] \<longrightarrow>
         (\<exists>fd. finaldist s = Some fd \<and> is_walk G (finalpath s) \<and> hd (finalpath s) = src \<and>
               last (finalpath s) = tgt \<and> walk_weight G (finalpath s) = fd \<and>
               distinct (finalpath s))"
    and others0: "\<forall>w a b. w \<noteq> u \<and> seen s False w = Some a \<and> seen s True w = Some b \<longrightarrow>
         finalpath s \<noteq> [] \<and> (\<exists>fd. finaldist s = Some fd \<and> fd \<le> a + b)"
  shows "\<exists>s'. meet u s = Inr s' \<and> sides_inv G src tgt pend s' \<and> meet_inv G src tgt s' \<and>
           dists s' = dists s \<and> dir s' = dir s"
proof (cases "\<exists>a b. seen s False u = Some a \<and> seen s True u = Some b")
  case False
  have fp: "\<exists>fd. finaldist s = Some fd \<and> is_walk G (finalpath s) \<and> hd (finalpath s) = src \<and>
               last (finalpath s) = tgt \<and> walk_weight G (finalpath s) = fd \<and>
               distinct (finalpath s)" if "finalpath s \<noteq> []"
    using that fp0 by simp
  have others: "finalpath s \<noteq> [] \<and> (\<exists>fd. finaldist s = Some fd \<and> fd \<le> a + b)"
    if "w \<noteq> u" "seen s False w = Some a" "seen s True w = Some b" for w a b
    using that others0 by blast
  from False have m: "meet u s = Inr s"
    by (auto simp: meet_def split: option.splits)
  have "meet_inv G src tgt s"
  proof (rule meet_invI)
    show "dom (dists s False) \<inter> dom (dists s True) = {}" by (rule disj)
    show "\<exists>fd. finaldist s = Some fd \<and> is_walk G (finalpath s) \<and> hd (finalpath s) = src \<and>
               last (finalpath s) = tgt \<and> walk_weight G (finalpath s) = fd \<and>
               distinct (finalpath s)" if "finalpath s \<noteq> []"
      using that by (rule fp)
    show "finalpath s \<noteq> [] \<and> (\<exists>fd. finaldist s = Some fd \<and> fd \<le> a + b)"
      if "seen s False w = Some a" "seen s True w = Some b" for w a b
    proof -
      from that False have "w \<noteq> u" by auto
      from others [OF this that] show ?thesis .
    qed
  qed
  with m sides show ?thesis by simp
next
  case True
  have fp: "\<exists>fd. finaldist s = Some fd \<and> is_walk G (finalpath s) \<and> hd (finalpath s) = src \<and>
               last (finalpath s) = tgt \<and> walk_weight G (finalpath s) = fd \<and>
               distinct (finalpath s)" if "finalpath s \<noteq> []"
    using that fp0 by simp
  have others: "finalpath s \<noteq> [] \<and> (\<exists>fd. finaldist s = Some fd \<and> fd \<le> a + b)"
    if "w \<noteq> u" "seen s False w = Some a" "seen s True w = Some b" for w a b
    using that others0 by blast
  from True obtain a b where ab: "seen s False u = Some a" "seen s True u = Some b" by blast
  from sides_inv_reached [OF sides ab(1)]
  obtain p0 where p0: "paths s False u = Some p0" "is_walk G p0" "hd p0 = src" "last p0 = u"
    "walk_weight G p0 = a" "distinct p0" "set (butlast p0) \<subseteq> dom (dists s False)"
    unfolding reached_def origin_def by auto
  from sides_inv_reached [OF sides ab(2)]
  obtain p1 where p1: "paths s True u = Some p1" "is_walk G p1" "hd p1 = tgt" "last p1 = u"
    "walk_weight G p1 = b" "distinct p1" "set (butlast p1) \<subseteq> dom (dists s True)"
    unfolding reached_def origin_def by auto
  from p0(7) p1(7) disj have d: "set (butlast p0) \<inter> set (butlast p1) = {}" by blast
  from p0(4) p1(4) have l: "last p0 = last p1" by simp
  note j = join_walks [OF sym p0(2,6) p1(2,6) l d]
  let ?fp = "p0 @ tl (rev p1)"
  let ?s' = "s\<lparr>finaldist := Some (a + b), finalpath := ?fp\<rparr>"
  from j(1) have fpne: "?fp \<noteq> []" by (rule is_walk_nonempty)
  have better: "meet_inv G src tgt ?s'"
    if lt: "\<And>fd. finalpath s \<noteq> [] \<Longrightarrow> finaldist s = Some fd \<Longrightarrow> a + b < fd"
  proof (rule meet_invI)
    show "dom (dists ?s' False) \<inter> dom (dists ?s' True) = {}" using disj by simp
    show "\<exists>fd. finaldist ?s' = Some fd \<and> is_walk G (finalpath ?s') \<and> hd (finalpath ?s') = src \<and>
               last (finalpath ?s') = tgt \<and> walk_weight G (finalpath ?s') = fd \<and>
               distinct (finalpath ?s')"
      using j p0(3,5) p1(3,5) by simp
    show "finalpath ?s' \<noteq> [] \<and> (\<exists>fd. finaldist ?s' = Some fd \<and> fd \<le> a' + b')"
      if h: "seen ?s' False w = Some a'" "seen ?s' True w = Some b'" for w a' b'
    proof (cases "w = u")
      case True
      with h ab fpne show ?thesis by simp
    next
      case False
      from h have "seen s False w = Some a'" "seen s True w = Some b'" by simp_all
      from others [OF False this] obtain fd where fd: "finalpath s \<noteq> []"
        "finaldist s = Some fd" "fd \<le> a' + b'" by blast
      from lt [OF fd(1,2)] fd(3) fpne show ?thesis by simp
    qed
  qed
  have s': "sides_inv G src tgt pend ?s'"
    by (rule sides_inv_cong [OF sides]) simp_all
  show ?thesis
  proof (cases "finalpath s = []")
    case True
    with ab p0(1) p1(1) have m: "meet u s = Inr ?s'"
      by (simp add: meet_def Let_def)
    from better True have "meet_inv G src tgt ?s'" by simp
    with m s' show ?thesis by simp
  next
    case False
    from fp [OF False] obtain fd where fd: "finaldist s = Some fd" by blast
    show ?thesis
    proof (cases "fd > a + b")
      case True
      with False fd ab p0(1) p1(1) have m: "meet u s = Inr ?s'"
        by (simp add: meet_def Let_def)
      from better True fd have "meet_inv G src tgt ?s'" by simp
      with m s' show ?thesis by simp
    next
      case le: False
      with False fd ab p0(1) p1(1) have m: "meet u s = Inr s"
        by (simp add: meet_def Let_def)
      have "meet_inv G src tgt s"
      proof (rule meet_invI)
        show "dom (dists s False) \<inter> dom (dists s True) = {}" by (rule disj)
        show "\<exists>fd. finaldist s = Some fd \<and> is_walk G (finalpath s) \<and> hd (finalpath s) = src \<and>
               last (finalpath s) = tgt \<and> walk_weight G (finalpath s) = fd \<and>
               distinct (finalpath s)" if "finalpath s \<noteq> []"
          using that by (rule fp)
        show "finalpath s \<noteq> [] \<and> (\<exists>fd. finaldist s = Some fd \<and> fd \<le> a' + b')"
          if h: "seen s False w = Some a'" "seen s True w = Some b'" for w a' b'
        proof (cases "w = u")
          case True
          with h ab False fd le show ?thesis by simp
        next
          case False
          from others [OF False h] show ?thesis .
        qed
      qed
      with m sides show ?thesis by simp
    qed
  qed
qed

lemma improved_fields [simp]:
  "dists (improved u x p s) = dists s"
  "dir (improved u x p s) = dir s"
  "finalpath (improved u x p s) = finalpath s"
  "finaldist (improved u x p s) = finaldist s"
  "seen (improved u x p s) (dir s) = (seen s (dir s))(u \<mapsto> x)"
  "paths (improved u x p s) (dir s) = (paths s (dir s))(u \<mapsto> p)"
  "fringe (improved u x p s) (dir s) = fringe s (dir s) @ [(x, counter s, u)]"
  "seen (improved u x p s) (\<not> dir s) = seen s (\<not> dir s)"
  "paths (improved u x p s) (\<not> dir s) = paths s (\<not> dir s)"
  "fringe (improved u x p s) (\<not> dir s) = fringe s (\<not> dir s)"
  by (simp_all add: improved_def)

lemma improved_seen_other:
  "w \<noteq> u \<Longrightarrow> seen (improved u x p s) d w = seen s d w"
  by (simp add: improved_def)

lemma relax_keeps_inv:
  assumes sides: "sides_inv G src tgt pend s" and mi: "meet_inv G src tgt s"
    and nn: "nonneg_weights G" and sym: "symmetric_weights G"
    and fv: "dists s (dir s) v = Some dv"
    and maxs: "\<forall>v' a. dists s (dir s) v' = Some a \<longrightarrow> a \<le> dv"
    and e: "get_weight G v u = Some w" and hu: "has_node G u"
  shows "\<exists>s'. relax v (u, w) s = Inr s' \<and> sides_inv G src tgt (pend - {(v, u)}) s' \<and>
           meet_inv G src tgt s' \<and> dists s' = dists s \<and> dir s' = dir s"
proof -
  note act = sides_inv_active [OF sides]
  note pas = sides_inv_passive [OF sides]
  have known: "sides_inv G src tgt (pend - {(v, u)}) s"
    if "seen s (dir s) u = Some su" "su \<le> dv + w" for su
    by (rule sides_invI [OF search_relax_known [OF act fv e that] pas])
  show ?thesis
  proof (cases "dists s (dir s) u")
    case (Some du)
    from search_settled_le [OF act fv e hu Some] have le: "du \<le> dv + w" .
    from search_inv_final_seen [OF act Some] have "seen s (dir s) u = Some du" .
    from known [OF this le] Some le fv mi show ?thesis
      by (simp add: relax_def Let_def)
  next
    case None
    show ?thesis
    proof (cases "seen s (dir s) u = None \<or> (\<exists>su. seen s (dir s) u = Some su \<and> dv + w < su)")
      case False
      then obtain su where su: "seen s (dir s) u = Some su" "su \<le> dv + w"
        by (cases "seen s (dir s) u") auto
      from known [OF su] None su fv mi show ?thesis
        by (simp add: relax_def Let_def)
    next
      case True
      from search_path_snoc [OF act fv e hu]
      obtain pv where pv: "paths s (dir s) v = Some pv" by blast
      let ?s1 = "improved u (dv + w) (pv @ [u]) s"
      from True have c: "(case seen s (dir s) u of None \<Rightarrow> True | Some sw \<Rightarrow> dv + w < sw)"
        by (auto split: option.splits)
      have r: "relax v (u, w) s = meet u ?s1"
        using None c pv fv by (simp add: relax_def Let_def improved_def)
      have "search_inv G (origin src tgt (dir s)) (pend - {(v, u)}) (dists s (dir s))
              ((seen s (dir s))(u \<mapsto> dv + w)) ((paths s (dir s))(u \<mapsto> pv @ [u]))
              (fringe s (dir s) @ [(dv + w, counter s, u)])"
        by (rule search_relax_improve [OF act nn fv e hu None True maxs pv])
      then have s1: "sides_inv G src tgt (pend - {(v, u)}) ?s1"
        using pas by (intro sides_invI) simp_all
      have d1: "dom (dists ?s1 False) \<inter> dom (dists ?s1 True) = {}"
        using meet_inv_disjoint [OF mi] by simp
      have fp1: "finalpath ?s1 \<noteq> [] \<longrightarrow>
               (\<exists>fd. finaldist ?s1 = Some fd \<and> is_walk G (finalpath ?s1) \<and>
               hd (finalpath ?s1) = src \<and> last (finalpath ?s1) = tgt \<and>
               walk_weight G (finalpath ?s1) = fd \<and> distinct (finalpath ?s1))"
        using meet_inv_path [OF mi] by simp
      have o1: "\<forall>w' a b. w' \<noteq> u \<and> seen ?s1 False w' = Some a \<and> seen ?s1 True w' = Some b \<longrightarrow>
               finalpath ?s1 \<noteq> [] \<and> (\<exists>fd. finaldist ?s1 = Some fd \<and> fd \<le> a + b)"
      proof (intro allI impI)
        fix w' a b
        assume h: "w' \<noteq> u \<and> seen ?s1 False w' = Some a \<and> seen ?s1 True w' = Some b"
        then have ne: "w' \<noteq> u" and h1: "seen ?s1 False w' = Some a"
          and h2: "seen ?s1 True w' = Some b" by simp_all
        from h1 h2 have "seen s False w' = Some a" "seen s True w' = Some b"
          by (simp_all add: improved_seen_other [OF ne])
        from meet_inv_both [OF mi this]
        show "finalpath ?s1 \<noteq> [] \<and> (\<exists>fd. finaldist ?s1 = Some fd \<and> fd \<le> a + b)" by simp
      qed
      from meet_keeps_inv [OF s1 sym d1 fp1 o1]
      obtain s' where "meet u ?s1 = Inr s'" "sides_inv G src tgt (pend - {(v, u)}) s'"
        "meet_inv G src tgt s'" "dists s' = dists ?s1" "dir s' = dir ?s1"
        by blast
      with r show ?thesis by simp
    qed
  qed
qed

lemma relax_loop_keeps_inv:
  assumes nn: "nonneg_weights G" and sym: "symmetric_weights G"
  shows "sides_inv G src tgt pend s \<Longrightarrow> meet_inv G src tgt s \<Longrightarrow>
     dists s (dir s) v = Some dv \<Longrightarrow> \<forall>v' a. dists s (dir s) v' = Some a \<longrightarrow> a \<le> dv \<Longrightarrow>
     \<forall>(u, w) \<in> set nbrs. get_weight G v u = Some w \<and> has_node G u \<Longrightarrow>
     \<exists>s'. for_loop (relax v) nbrs s = Inr s' \<and>
          sides_inv G src tgt (pend - {v} \<times> fst ` set nbrs) s' \<and> meet_inv G src tgt s' \<and>
          dists s' = dists s \<and> dir s' = dir s"
proof (induction nbrs arbitrary: s pend)
  case Nil
  then show ?case by simp
next
  case (Cons ue nbrs)
  obtain u w where ue: "ue = (u, w)" by (cases ue)
  with Cons.prems(5) have e: "get_weight G v u = Some w" "has_node G u" by simp_all
  from relax_keeps_inv [OF Cons.prems(1,2) nn sym Cons.prems(3,4) e]
  obtain s1 where s1: "relax v (u, w) s = Inr s1"
    "sides_inv G src tgt (pend - {(v, u)}) s1" "meet_inv G src tgt s1"
    "dists s1 = dists s" "dir s1 = dir s"
    by blast
  from Cons.prems(3) s1(4,5) have f1: "dists s1 (dir s1) v = Some dv" by simp
  from Cons.prems(4) s1(4,5) have m1: "\<forall>v' a. dists s1 (dir s1) v' = Some a \<longrightarrow> a \<le> dv" by simp
  from Cons.prems(5) have "\<forall>(u, w) \<in> set nbrs. get_weight G v u = Some w \<and> has_node G u"
    by simp
  from Cons.IH [OF s1(2,3) f1 m1 this]
  obtain s' where s': "for_loop (relax v) nbrs s1 = Inr s'"
    "sides_inv G src tgt (pend - {(v, u)} - {v} \<times> fst ` set nbrs) s'"
    "meet_inv G src tgt s'" "dists s' = dists s1" "dir s' = dir s1"
    by blast
  have "pend - {(v, u)} - {v} \<times> fst ` set nbrs = pend - {v} \<times> fst ` set (ue # nbrs)"
    unfolding ue by auto
  with s' s1 show ?case
    by (simp add: ue)
qed

lemma meet_inv_cong:
  assumes "meet_inv G src tgt s"
    and "dists s' = dists s" "seen s' = seen s" "finalpath s' = finalpath s"
      "finaldist s' = finaldist s"
  shows "meet_inv G src tgt s'"
  unfolding meet_inv_def assms(2,3,4,5) by (rule assms(1) [unfolded meet_inv_def])

lemma bidir_inv_sides: "bidir_inv G src tgt s \<Longrightarrow> sides_inv G src tgt {} s"
  unfolding bidir_inv_def by blast

lemma bidir_inv_meet: "bidir_inv G src tgt s \<Longrightarrow> meet_inv G src tgt s"
  unfolding bidir_inv_def by blast

lemma bidir_inv_phase: "bidir_inv G src tgt s \<Longrightarrow> phase_inv src s"
  unfolding bidir_inv_def by blast

lemma skip_keeps_inv:
  assumes inv: "bidir_inv G src tgt s"
    and ne: "fringe s (\<not> dir s) \<noteq> []"
    and hp: "heappop (fringe s (\<not> dir s)) = ((d, k, v), rest)"
    and fd: "dists s (\<not> dir s) v \<noteq> None"
    and s1: "dir s1 = (\<not> dir s)" "dists s1 = dists s" "seen s1 = seen s" "paths s1 = paths s"
      "fringe s1 = (fringe s)(\<not> dir s := rest)" "finalpath s1 = finalpath s"
      "finaldist s1 = finaldist s"
  shows "bidir_inv G src tgt s1"
proof -
  note sides = bidir_inv_sides [OF inv]
  from search_skip [OF sides_inv_passive [OF sides] ne hp fd]
  have a: "search_inv G (origin src tgt (dir s1)) {}
       (dists s1 (dir s1)) (seen s1 (dir s1)) (paths s1 (dir s1)) (fringe s1 (dir s1))"
    by (simp add: s1)
  from sides_inv_active [OF sides]
  have b: "search_inv G (origin src tgt (\<not> dir s1)) {}
       (dists s1 (\<not> dir s1)) (seen s1 (\<not> dir s1)) (paths s1 (\<not> dir s1)) (fringe s1 (\<not> dir s1))"
    by (simp add: s1)
  have 1: "sides_inv G src tgt {} s1" by (rule sides_invI [OF a b])
  have 2: "meet_inv G src tgt s1"
    by (rule meet_inv_cong [OF bidir_inv_meet [OF inv] s1(2,3,6,7)])
  from bidir_inv_phase [OF inv] fd have 3: "phase_inv src s1"
    unfolding phase_inv_def s1 by (cases "dir s") auto
  from 1 2 3 show ?thesis by (simp add: bidir_inv_def)
qed

lemma settle_keeps_inv:
  assumes inv: "bidir_inv G src tgt s" and nn: "nonneg_weights G"
    and ne: "fringe s (\<not> dir s) \<noteq> []"
    and hp: "heappop (fringe s (\<not> dir s)) = ((d, k, v), rest)"
    and fd: "dists s (\<not> dir s) v = None" and other: "dists s (dir s) v = None"
    and s2: "dir s2 = (\<not> dir s)" "dists s2 = (dists s)(\<not> dir s := (dists s (\<not> dir s))(v \<mapsto> d))"
      "seen s2 = seen s" "paths s2 = paths s"
      "fringe s2 = (fringe s)(\<not> dir s := rest)" "finalpath s2 = finalpath s"
      "finaldist s2 = finaldist s"
  shows "sides_inv G src tgt ({v} \<times> UNIV) s2" "meet_inv G src tgt s2" "phase_inv src s2"
    "dists s2 (dir s2) v = Some d" "\<forall>v' a. dists s2 (dir s2) v' = Some a \<longrightarrow> a \<le> d"
    "has_node G v"
proof -
  note sides = bidir_inv_sides [OF inv]
  note mi = bidir_inv_meet [OF inv]
  note pas = sides_inv_passive [OF sides]
  from search_settle [OF pas nn ne hp fd]
  have a: "search_inv G (origin src tgt (dir s2)) ({v} \<times> UNIV)
       (dists s2 (dir s2)) (seen s2 (dir s2)) (paths s2 (dir s2)) (fringe s2 (dir s2))"
    by (simp add: s2)
  from sides_inv_active [OF sides]
  have b: "search_inv G (origin src tgt (\<not> dir s2)) {}
       (dists s2 (\<not> dir s2)) (seen s2 (\<not> dir s2)) (paths s2 (\<not> dir s2)) (fringe s2 (\<not> dir s2))"
    by (simp add: s2)
  show "sides_inv G src tgt ({v} \<times> UNIV) s2" by (rule sides_invI [OF a b])
  show "meet_inv G src tgt s2"
  proof (rule meet_invI)
    from meet_inv_disjoint [OF mi] fd other
    show "dom (dists s2 False) \<inter> dom (dists s2 True) = {}"
      unfolding s2 by (cases "dir s") auto
    show "\<exists>fd. finaldist s2 = Some fd \<and> is_walk G (finalpath s2) \<and> hd (finalpath s2) = src \<and>
               last (finalpath s2) = tgt \<and> walk_weight G (finalpath s2) = fd \<and>
               distinct (finalpath s2)" if "finalpath s2 \<noteq> []"
      using that meet_inv_path [OF mi] by (simp add: s2)
    show "finalpath s2 \<noteq> [] \<and> (\<exists>fd. finaldist s2 = Some fd \<and> fd \<le> a + b)"
      if "seen s2 False w = Some a" "seen s2 True w = Some b" for w a b
      using that meet_inv_both [OF mi, of w a b] by (simp add: s2)
  qed
  have first: "v = src" if "dists s False = Map.empty" "dir s"
    using first_pop [OF pas ne hp] that by (simp add: origin_def)
  from bidir_inv_phase [OF inv] first show "phase_inv src s2"
    unfolding phase_inv_def s2 by (cases "dir s") auto
  show "dists s2 (dir s2) v = Some d" by (simp add: s2)
  show "\<forall>v' a. dists s2 (dir s2) v' = Some a \<longrightarrow> a \<le> d"
    using settle_max [OF pas ne hp] by (simp add: s2)
  from settle_least(1) [OF pas nn ne hp fd] have "seen s (\<not> dir s) v = Some d" .
  from search_inv_reached [OF pas this] obtain p where "is_walk G p" "last p = v"
    unfolding reached_def by blast
  then show "has_node G v" using is_walk_last by blast
qed

lemma oriented_walk:
  assumes sym: "symmetric_weights G" and q: "is_walk G q" "hd q = src" "last q = tgt"
  obtains q' where "is_walk G q'" "hd q' = origin src tgt d" "last q' = origin src tgt (\<not> d)"
    "walk_weight G q' = walk_weight G q"
proof (cases d)
  case False
  with q show ?thesis by (intro that [of q]) (simp_all add: origin_def)
next
  case True
  from q(1) have ne: "q \<noteq> []" by (rule is_walk_nonempty)
  from walk_rev [OF sym q(1)] ne q(2,3) True show ?thesis
    by (intro that [of "rev q"]) (simp_all add: origin_def hd_rev last_rev)
qed

lemma meeting_shortest:
  assumes inv: "bidir_inv G src tgt s" and nn: "nonneg_weights G"
    and sym: "symmetric_weights G"
    and ne: "fringe s (\<not> dir s) \<noteq> []"
    and hp: "heappop (fringe s (\<not> dir s)) = ((d, k, v), rest)"
    and fd: "dists s (\<not> dir s) v = None" and other: "dists s (dir s) v = Some y"
  shows "\<exists>fd. finaldist s = Some fd \<and> shortest_walk G src tgt (finalpath s) \<and>
           distinct (finalpath s) \<and> walk_weight G (finalpath s) = fd"
proof -
  note sides = bidir_inv_sides [OF inv]
  note mi = bidir_inv_meet [OF inv]
  note act = sides_inv_passive [OF sides]
  note oth = sides_inv_active [OF sides]
  from settle_least(1) [OF act nn ne hp fd] have sv: "seen s (\<not> dir s) v = Some d" .
  from search_inv_final_seen [OF oth other] have so: "seen s (dir s) v = Some y" .
  from meet_inv_both_dir [OF mi so sv]
  obtain fd where fd: "finalpath s \<noteq> []" "finaldist s = Some fd" "fd \<le> y + d" by blast
  from meet_inv_path [OF mi fd(1)] fd(2)
  have w: "is_walk G (finalpath s)" "hd (finalpath s) = src" "last (finalpath s) = tgt"
    "walk_weight G (finalpath s) = fd" "distinct (finalpath s)"
    by auto
  have least: "fd \<le> walk_weight G q" if q: "is_walk G q" "hd q = src" "last q = tgt" for q
  proof -
    obtain q' where q': "is_walk G q'" "hd q' = origin src tgt (\<not> dir s)"
      "last q' = origin src tgt (\<not> \<not> dir s)" "walk_weight G q' = walk_weight G q"
      by (rule oriented_walk [OF sym q, of "\<not> dir s"])
    from q'(3) have lq: "last q' = origin src tgt (dir s)" by simp
    from other have "dists s (dir s) \<noteq> Map.empty" by auto
    from search_inv_origin_final [OF oth this]
    obtain y0 where "dists s (dir s) (origin src tgt (dir s)) = Some y0" by auto
    from meet_inv_disjoint_dir [OF mi this] lq
    have ln: "dists s (\<not> dir s) (last q') = None" by simp
    obtain q0 z r dz where z: "q' = q0 @ z # r" "dists s (\<not> dir s) z = None"
      "seen s (\<not> dir s) z = Some dz" "dz \<le> walk_weight G (q0 @ [z])" "is_walk G (z # r)"
      "walk_weight G q' = walk_weight G (q0 @ [z]) + walk_weight G (z # r)"
      by (rule exit_bound [OF act q'(1,2) ln]) (rule that, assumption+)
    from z(1) lq have lr: "last (z # r) = origin src tgt (dir s)" by simp
    from walk_rev [OF sym z(5)]
    have rv: "is_walk G (rev (z # r))" "walk_weight G (rev (z # r)) = walk_weight G (z # r)"
      by simp_all
    from lr have hr: "hd (rev (z # r)) = origin src tgt (dir s)"
      by (simp add: hd_rev del: rev.simps)
    have lrv: "last (rev (z # r)) = z" by simp
    show ?thesis
    proof (cases "dists s (dir s) z")
      case (Some b)
      from search_inv_final_seen [OF oth Some] have sz: "seen s (dir s) z = Some b" .
      from search_inv_final_least [OF oth Some rv(1) hr lrv] rv(2)
      have 1: "b \<le> walk_weight G (z # r)" by simp
      from meet_inv_both_dir [OF mi sz z(3)] fd(2) have "fd \<le> b + dz" by auto
      with 1 z(4,6) q'(4) show ?thesis by simp
    next
      case None
      from lrv None have "dists s (dir s) (last (rev (z # r))) = None" by simp
      from unsettled_bound [OF oth nn rv(1) hr this other] rv(2)
      have 1: "y \<le> walk_weight G (z # r)" by simp
      from search_inv_in_fringe [OF act z(3,2)]
      obtain kz where "(dz, kz, z) \<in> set (fringe s (\<not> dir s))" by blast
      from heappop_least [OF ne hp this] have "d \<le> dz" .
      with 1 fd(3) z(4,6) q'(4) show ?thesis by simp
    qed
  qed
  from w least have "shortest_walk G src tgt (finalpath s)"
    by (simp add: shortest_walk_def)
  with fd(2) w show ?thesis by simp
qed

lemma exhausted_no_path:
  assumes inv: "bidir_inv G src tgt s" and sym: "symmetric_weights G"
    and st: "src \<noteq> tgt" and e: "fringe s d = []"
  shows "\<not> connected G src tgt"
proof
  assume "connected G src tgt"
  then obtain q where q: "is_walk G q" "hd q = src" "last q = tgt"
    unfolding connected_def by blast
  note sides = bidir_inv_sides [OF inv]
  note mi = bidir_inv_meet [OF inv]
  from sides_inv_any [OF sides, of d] e
  have side: "search_inv G (origin src tgt d) {} (dists s d) (seen s d) (paths s d) []"
    by simp
  have ne: "dists s d \<noteq> Map.empty"
  proof
    assume "dists s d = Map.empty"
    from search_inv_first [OF side this] show False by simp
  qed
  obtain q' where q': "is_walk G q'" "hd q' = origin src tgt d"
    "last q' = origin src tgt (\<not> d)"
    by (rule oriented_walk [OF sym q, of d])
  from exhausted_closed [OF side q'(1,2)] q'(3)
  obtain a where a: "dists s d (origin src tgt (\<not> d)) = Some a" by auto
  show False
  proof (cases "dists s (\<not> d) = Map.empty")
    case False
    from search_inv_origin_final [OF sides_inv_any [OF sides, of "\<not> d"] False]
    obtain b where "dists s (\<not> d) (origin src tgt (\<not> d)) = Some b" by auto
    from meet_inv_disjoint_dir [OF mi this] a show False by simp
  next
    case True
    with bidir_inv_phase [OF inv] ne a st show False
      unfolding phase_inv_def origin_def by (cases d) (auto split: if_splits)
  qed
qed

lemma bidirectional_loop_correct:
  assumes nn: "nonneg_weights G" and wf: "wf_graph G" and sym: "symmetric_weights G"
    and st: "src \<noteq> tgt"
  shows "bidir_inv G src tgt s \<Longrightarrow>
           (bidirectional_loop G s = Inl NetworkXNoPath \<and> \<not> connected G src tgt) \<or>
           (\<exists>fd p. bidirectional_loop G s = Inr (fd, p) \<and> shortest_walk G src tgt p \<and>
                   distinct p \<and> walk_weight G p = fd)"
  using assms
proof (induction G s rule: bidirectional_loop.induct)
  case (1 G s)
  note inv = "1.prems"(1) and nn = "1.prems"(2) and wf = "1.prems"(3) and sym = "1.prems"(4)
    and st = "1.prems"(5)
  show ?case
  proof (cases "fringe s False \<noteq> [] \<and> fringe s True \<noteq> []")
    case False
    then obtain d where "fringe s d = []" by auto
    from exhausted_no_path [OF inv sym st this] have nc: "\<not> connected G src tgt" .
    have "bidirectional_loop G s = Inl NetworkXNoPath"
      by (subst bidirectional_loop.simps) (simp only: False if_False)
    with nc show ?thesis by simp
  next
    case both: True
    then have ne: "fringe s (\<not> dir s) \<noteq> []" by (cases "dir s") simp_all
    obtain d k v rest where hp: "heappop (fringe s (\<not> dir s)) = ((d, k, v), rest)"
      by (metis prod.exhaust)
    let ?s1 = "s\<lparr>dir := \<not> dir s, fringe := (fringe s)(\<not> dir s := rest)\<rparr>"
    let ?s2 = "?s1\<lparr>dists := (dists ?s1)(dir ?s1 := (dists ?s1 (dir ?s1))(v \<mapsto> d))\<rparr>"
    show ?thesis
    proof (cases "dists s (\<not> dir s) v = None")
      case False
      then have c: "dists ?s1 (dir ?s1) v \<noteq> None" by simp
      have inv1: "bidir_inv G src tgt ?s1"
        by (rule skip_keeps_inv [OF inv ne hp False]) simp_all
      have eq: "bidirectional_loop G s = bidirectional_loop G ?s1"
        using both hp False by (subst bidirectional_loop.simps) (simp add: Let_def)
      from "1.IH"(1) [OF both hp [symmetric] refl refl refl c inv1 nn wf sym st] eq
      show ?thesis by simp
    next
      case fd: True
      then have c: "\<not> dists ?s1 (dir ?s1) v \<noteq> None" by simp
      show ?thesis
      proof (cases "dists s (dir s) v")
        case (Some y)
        from meeting_shortest [OF inv nn sym ne hp fd Some]
        obtain fdist where f: "finaldist s = Some fdist" "shortest_walk G src tgt (finalpath s)"
          "distinct (finalpath s)" "walk_weight G (finalpath s) = fdist" by blast
        have "bidirectional_loop G s = Inr (fdist, finalpath s)"
          using both hp fd Some f(1) by (subst bidirectional_loop.simps) (simp add: Let_def)
        with f show ?thesis by simp
      next
        case other: None
        then have c2: "\<not> dists ?s2 (\<not> dir ?s2) v \<noteq> None" by simp
        note st2 = settle_keeps_inv [OF inv nn ne hp fd other, of ?s2, simplified]
        from st2(6) obtain nbrs where nb: "map_of G v = Some nbrs"
          by (auto simp: has_node_def)
        have f2: "dists ?s2 (dir ?s2) v = Some d" by simp
        have m2: "\<forall>v' a. dists ?s2 (dir ?s2) v' = Some a \<longrightarrow> a \<le> d"
          using st2(5) by simp
        have sides2: "sides_inv G src tgt ({v} \<times> UNIV) ?s2" using st2(1) by simp
        have meet2: "meet_inv G src tgt ?s2" using st2(2) by simp
        have phase2: "phase_inv src ?s2" using st2(3) by simp
        from relax_loop_keeps_inv [OF nn sym sides2 meet2 f2 m2 wf_graph_neighbours(1) [OF wf nb]]
        obtain s3 where s3: "for_loop (relax v) nbrs ?s2 = Inr s3"
          "sides_inv G src tgt ({v} \<times> UNIV - {v} \<times> fst ` set nbrs) s3"
          "meet_inv G src tgt s3" "dists s3 = dists ?s2" "dir s3 = dir ?s2"
          by blast
        have "search_inv G (origin src tgt (dir s3)) {}
                (dists s3 (dir s3)) (seen s3 (dir s3)) (paths s3 (dir s3)) (fringe s3 (dir s3))"
        proof (rule search_inv_change_pend [OF sides_inv_active [OF s3(2)]])
          fix v' dv u w
          assume h: "dists s3 (dir s3) v' = Some dv" "get_weight G v' u = Some w"
          have "(v', u) \<notin> {v} \<times> UNIV - {v} \<times> fst ` set nbrs"
            using wf_graph_neighbours(2) [OF wf nb, of u w] h(2) by auto
          from search_inv_relaxed [OF sides_inv_active [OF s3(2)] h this]
          show "\<exists>d'. seen s3 (dir s3) u = Some d' \<and> d' \<le> dv + w" .
        qed
        then have sides3: "sides_inv G src tgt {} s3"
          by (rule sides_invI [OF _ sides_inv_passive [OF s3(2)]])
        from phase2 s3(4,5) have "phase_inv src s3"
          unfolding phase_inv_def by simp
        with sides3 s3(3) have inv3: "bidir_inv G src tgt s3"
          by (simp add: bidir_inv_def)
        have eq: "bidirectional_loop G s = bidirectional_loop G s3"
          using both hp fd other nb s3(1)
          by (subst bidirectional_loop.simps) (simp add: Let_def)
        from "1.IH"(2) [OF both hp [symmetric] refl refl refl c refl c2 nb s3(1) inv3 nn wf sym st]
          eq
        show ?thesis by simp
      qed
    qed
  qed
qed

lemma initial_inv:
  assumes src: "has_node G src" and tgt: "has_node G tgt" and st: "src \<noteq> tgt"
  shows "bidir_inv G src tgt
          \<lparr>dists = (\<lambda>d. Map.empty),
           seen = (\<lambda>d. if d then [tgt \<mapsto> 0] else [src \<mapsto> 0]),
           paths = (\<lambda>d. if d then [tgt \<mapsto> [tgt]] else [src \<mapsto> [src]]),
           fringe = (\<lambda>d. if d then [(0, 1, tgt)] else [(0, 0, src)]),
           counter = 2, finaldist = None, finalpath = [], dir = True\<rparr>"
    (is "bidir_inv G src tgt ?s0")
proof -
  have side: "search_inv G x {} Map.empty [x \<mapsto> 0] [x \<mapsto> [x]] [(0, k, x)]"
    if "has_node G x" for x :: 'a and k
    by (rule search_invI) (use that in \<open>auto simp: reached_def split: if_splits\<close>)
  have "sides_inv G src tgt {} ?s0"
    unfolding sides_inv_def
  proof
    fix d
    show "search_inv G (origin src tgt d) (if d = dir ?s0 then {} else {})
            (dists ?s0 d) (seen ?s0 d) (paths ?s0 d) (fringe ?s0 d)"
      using side [OF src, of 0] side [OF tgt, of 1] by (cases d) (simp_all add: origin_def)
  qed
  moreover have "meet_inv G src tgt ?s0"
    by (rule meet_invI) (use st in \<open>auto split: if_splits\<close>)
  moreover have "phase_inv src ?s0"
    by (simp add: phase_inv_def)
  ultimately show ?thesis by (simp add: bidir_inv_def)
qed

lemma bidirectional_dijkstra_correct:
  assumes nn: "nonneg_weights G" and wf: "wf_graph G" and sym: "symmetric_weights G"
    and src: "has_node G src" and tgt: "has_node G tgt" and st: "src \<noteq> tgt"
  shows "if connected G src tgt
         then \<exists>fd p. bidirectional_dijkstra G src tgt = Inr (fd, p) \<and>
                shortest_walk G src tgt p \<and> distinct p \<and> walk_weight G p = fd
         else bidirectional_dijkstra G src tgt = Inl NetworkXNoPath"
proof -
  from bidirectional_loop_correct [OF nn wf sym st initial_inv [OF src tgt st]] src tgt st
  have "(bidirectional_dijkstra G src tgt = Inl NetworkXNoPath \<and> \<not> connected G src tgt) \<or>
        (\<exists>fd p. bidirectional_dijkstra G src tgt = Inr (fd, p) \<and> shortest_walk G src tgt p \<and>
                distinct p \<and> walk_weight G p = fd)"
    by (simp add: bidirectional_dijkstra_def)
  moreover have "connected G src tgt" if "shortest_walk G src tgt p" for p
    using that unfolding connected_def shortest_walk_def by blast
  ultimately show ?thesis by auto
qed

section \<open>Paths between towers\<close>

lemma wf_graph_adj:
  assumes "wf_graph G"
  shows "distinct (map fst (adj G u))" "fst ` set (adj G u) \<subseteq> Collect (has_node G)"
proof -
  show "distinct (map fst (adj G u))"
  proof (cases "map_of G u")
    case None
    then show ?thesis by (simp add: adj_def)
  next
    case (Some nb)
    with assms show ?thesis unfolding wf_graph_def adj_def by simp
  qed
  show "fst ` set (adj G u) \<subseteq> Collect (has_node G)"
  proof (cases "map_of G u")
    case None
    then show ?thesis by (simp add: adj_def)
  next
    case (Some nb)
    with assms show ?thesis unfolding wf_graph_def adj_def by simp
  qed
qed

lemma has_node_mono_add_edge: "Collect (has_node G) \<subseteq> Collect (has_node (add_edge u v w G))"
  by (auto simp: has_node_add_edge)

lemma wf_graph_add_edge:
  assumes "wf_graph G"
  shows "wf_graph (add_edge u v w G)"
  unfolding wf_graph_def
proof (intro allI impI)
  fix a nbrs assume m: "map_of (add_edge u v w G) a = Some nbrs"
  note d = wf_graph_adj(1) [OF assms] and h = wf_graph_adj(2) [OF assms]
  let ?N = "Collect (has_node (add_edge u v w G))"
  have hu: "u \<in> ?N" and hv: "v \<in> ?N" by (simp_all add: has_node_add_edge)
  have h': "fst ` set (adj G x) \<subseteq> ?N" for x
    using h [of x] has_node_mono_add_edge [of G u v w] by (rule subset_trans)
  show "distinct (map fst nbrs) \<and> fst ` set nbrs \<subseteq> ?N"
  proof (cases "a = v")
    case True
    with m have nb: "nbrs = AList.update u w (if u = v then AList.update v w (adj G u) else adj G v)"
      by (simp add: map_of_add_edge)
    show ?thesis
    proof (cases "u = v")
      case True
      then have "nbrs = AList.update u w (AList.update v w (adj G u))" using nb by simp
      then show ?thesis
        using d [of u] h' [of u] hu hv by (simp add: distinct_update dom_update)
    next
      case False
      then have "nbrs = AList.update u w (adj G v)" using nb by simp
      then show ?thesis
        using d [of v] h' [of v] hu by (simp add: distinct_update dom_update)
    qed
  next
    case False
    show ?thesis
    proof (cases "a = u")
      case True
      with False m have nb: "nbrs = AList.update v w (adj G u)"
        by (simp add: map_of_add_edge)
      show ?thesis
        unfolding nb using d [of u] h' [of u] hv by (simp add: distinct_update dom_update)
    next
      case au: False
      with False m have "map_of G a = Some nbrs" by (simp add: map_of_add_edge)
      with assms have "distinct (map fst nbrs)" "fst ` set nbrs \<subseteq> Collect (has_node G)"
        unfolding wf_graph_def by blast+
      with has_node_mono_add_edge [of G u v w] show ?thesis by blast
    qed
  qed
qed

lemma no_isolated_add_edge:
  assumes "no_isolated G"
  shows "no_isolated (add_edge u v w G)"
  unfolding no_isolated_def
proof (intro allI impI)
  fix a assume "has_node (add_edge u v w G) a"
  then consider "a = u" | "a = v" | "has_node G a" by (auto simp: has_node_add_edge)
  then show "\<exists>b. get_weight (add_edge u v w G) a b \<noteq> None"
  proof cases
    case 1
    then have "get_weight (add_edge u v w G) a v \<noteq> None" by (simp add: get_weight_add_edge)
    then show ?thesis ..
  next
    case 2
    then have "get_weight (add_edge u v w G) a u \<noteq> None" by (simp add: get_weight_add_edge)
    then show ?thesis ..
  next
    case 3
    with assms obtain b where "get_weight G a b \<noteq> None" unfolding no_isolated_def by blast
    then have "get_weight (add_edge u v w G) a b \<noteq> None" by (simp add: get_weight_add_edge)
    then show ?thesis ..
  qed
qed

lemma edge_step_keeps:
  assumes "wf_graph G \<and> no_isolated G"
  shows "wf_graph (edge_step it jt G) \<and> no_isolated (edge_step it jt G)"
  using assms
  by (cases it; cases jt) (auto simp: edge_step_eq wf_graph_add_edge no_isolated_add_edge)

lemma fold_keeps:
  assumes "\<And>x s. P s \<Longrightarrow> P (f x s)" "P s"
  shows "P (fold f xs s)"
  using assms(2) by (induction xs arbitrary: s) (auto intro: assms(1))

lemma build_graph_wf: "wf_graph (build_graph ts) \<and> no_isolated (build_graph ts)"
proof -
  have 0: "wf_graph ([] :: int graph) \<and> no_isolated ([] :: int graph)"
    by (simp add: wf_graph_def no_isolated_def has_node_def)
  have 1: "wf_graph (fold (edge_step it) js G) \<and> no_isolated (fold (edge_step it) js G)"
    if "wf_graph G \<and> no_isolated G" for it js G
    using that by (rule fold_keeps [where P = "\<lambda>G. wf_graph G \<and> no_isolated G", rotated])
      (rule edge_step_keeps)
  show ?thesis
    unfolding build_graph_def
    by (rule fold_keeps [where P = "\<lambda>G. wf_graph G \<and> no_isolated G", OF 1 0])
qed

lemma build_graph_nonneg: "nonneg_weights (build_graph ts)"
  unfolding nonneg_weights_def
  by (auto simp: get_weight_build_graph sqdist_nonneg split: if_splits)

lemma has_node_build_graph:
  "has_node (build_graph ts) a = (\<exists>b. get_weight (build_graph ts) a b \<noteq> None)"
  using build_graph_wf [of ts] get_weight_has_node [of "build_graph ts" a]
  unfolding no_isolated_def by blast

lemma linked_sym: "linked ts i j = linked ts j i"
  unfolding linked_def using sqdist_sym [of "ts ! i" "ts ! j"] by auto

lemma get_weight_build_graph_linked:
  "get_weight (build_graph ts) a b =
     (if \<exists>i j. i < length ts \<and> j < length ts \<and> i \<noteq> j \<and> a = int i \<and> b = int j \<and> linked ts i j
      then Some (sqdist (ts ! nat a) (ts ! nat b)) else None)"
  unfolding linked_def by (rule get_weight_build_graph)

lemma build_graph_symmetric: "symmetric_weights (build_graph ts)"
  unfolding symmetric_weights_def
proof (intro allI)
  fix a b
  let ?P = "\<lambda>a b. \<exists>i j. i < length ts \<and> j < length ts \<and> i \<noteq> j \<and> a = int i \<and> b = int j \<and>
              linked ts i j"
  have pq: "?P a b = ?P b a"
    using linked_sym [of ts] by blast
  have 1: "get_weight (build_graph ts) a b =
             (if ?P a b then Some (sqdist (ts ! nat a) (ts ! nat b)) else None)"
    by (rule get_weight_build_graph_linked)
  have 2: "get_weight (build_graph ts) b a =
             (if ?P b a then Some (sqdist (ts ! nat b) (ts ! nat a)) else None)"
    by (rule get_weight_build_graph_linked)
  show "get_weight (build_graph ts) a b = get_weight (build_graph ts) b a"
    unfolding 1 2 pq by (simp only: sqdist_sym [of "ts ! nat a" "ts ! nat b"])
qed

lemma shortest_path_cases:
  assumes nn: "nonneg_weights G" and wf: "wf_graph G" and sym: "symmetric_weights G"
  shows "\<not> (has_node G s \<and> has_node G t) \<Longrightarrow> shortest_path G s t = Inl NodeNotFound"
    and "has_node G s \<Longrightarrow> has_node G t \<Longrightarrow> \<not> connected G s t \<Longrightarrow>
           shortest_path G s t = Inl NetworkXNoPath"
    and "has_node G s \<Longrightarrow> has_node G t \<Longrightarrow> connected G s t \<Longrightarrow>
           \<exists>p. shortest_path G s t = Inr p \<and> shortest_walk G s t p \<and> distinct p"
proof -
  show "shortest_path G s t = Inl NodeNotFound" if "\<not> (has_node G s \<and> has_node G t)"
    using that by (auto simp: shortest_path_def bidirectional_dijkstra_def)
  have same: "shortest_walk G s s [s]" if "has_node G s"
    using that walk_weight_nonneg [OF nn] by (simp add: shortest_walk_def)
  have conn_same: "connected G s s" if "has_node G s"
    unfolding connected_def using that by (intro exI [of _ "[s]"]) simp
  show "shortest_path G s t = Inl NetworkXNoPath"
    if h: "has_node G s" "has_node G t" "\<not> connected G s t"
  proof -
    from h conn_same have ne: "s \<noteq> t" by auto
    from bidirectional_dijkstra_correct [OF nn wf sym h(1,2) ne] h(3)
    have "bidirectional_dijkstra G s t = Inl NetworkXNoPath" by simp
    then show ?thesis by (simp add: shortest_path_def)
  qed
  show "\<exists>p. shortest_path G s t = Inr p \<and> shortest_walk G s t p \<and> distinct p"
    if h: "has_node G s" "has_node G t" "connected G s t"
  proof (cases "s = t")
    case True
    with h have "shortest_path G s t = Inr [s]"
      by (simp add: shortest_path_def bidirectional_dijkstra_def)
    moreover from True h same have "shortest_walk G s t [s]" by simp
    ultimately show ?thesis by auto
  next
    case False
    from bidirectional_dijkstra_correct [OF nn wf sym h(1,2) False] h(3)
    obtain fd p where p: "bidirectional_dijkstra G s t = Inr (fd, p)" "shortest_walk G s t p"
      "distinct p"
      by auto
    from p(1) have "shortest_path G s t = Inr p" by (simp add: shortest_path_def)
    with p show ?thesis by auto
  qed
qed

lemma find_reliable_path_cases:
  fixes c :: CityGrid
  defines "G \<equiv> build_graph (towers c)"
  shows "\<not> (has_node G s \<and> has_node G t) \<Longrightarrow> find_reliable_path c s t = Inl NodeNotFound"
    and "has_node G s \<Longrightarrow> has_node G t \<Longrightarrow> \<not> connected G s t \<Longrightarrow> find_reliable_path c s t = Inr None"
    and "has_node G s \<Longrightarrow> has_node G t \<Longrightarrow> connected G s t \<Longrightarrow>
           \<exists>p. find_reliable_path c s t = Inr (Some p) \<and> shortest_walk G s t p \<and> distinct p"
proof -
  have nn: "nonneg_weights G" and wf: "wf_graph G" and sym: "symmetric_weights G"
    unfolding G_def using build_graph_nonneg build_graph_wf build_graph_symmetric by blast+
  note sp = shortest_path_cases [OF nn wf sym]
  show "find_reliable_path c s t = Inl NodeNotFound" if "\<not> (has_node G s \<and> has_node G t)"
    using sp(1) [OF that] unfolding G_def by (simp add: find_reliable_path_def)
  show "find_reliable_path c s t = Inr None"
    if h: "has_node G s" "has_node G t" "\<not> connected G s t"
    using sp(2) [OF h] unfolding G_def by (simp add: find_reliable_path_def)
  show "\<exists>p. find_reliable_path c s t = Inr (Some p) \<and> shortest_walk G s t p \<and> distinct p"
    if h: "has_node G s" "has_node G t" "connected G s t"
  proof -
    from sp(3) [OF h] obtain p where p: "shortest_path G s t = Inr p" "shortest_walk G s t p"
      "distinct p" by blast
    from p(1) have "find_reliable_path c s t = Inr (Some p)"
      unfolding G_def by (simp add: find_reliable_path_def)
    with p show ?thesis by auto
  qed
qed

lemma chain_walk_unique:
  assumes edges: "\<And>x y. get_weight G x y \<noteq> None \<Longrightarrow>
            (x = a \<and> y = b) \<or> (x = b \<and> y = a) \<or> (x = b \<and> y = c) \<or> (x = c \<and> y = b)"
    and ne: "a \<noteq> b" "b \<noteq> c" "a \<noteq> c"
    and p: "is_walk G p" "hd p = a" "last p = c" "distinct p"
  shows "p = [a, b, c]"
proof -
  from p(1,2) obtain r1 where r1: "p = a # r1" by (cases p) auto
  with p(3) ne obtain y r2 where r2: "r1 = y # r2" by (cases r1) auto
  from p(1) r1 r2 have "get_weight G a y \<noteq> None" by simp
  from edges [OF this] ne have y: "y = b" by auto
  from p(3) r1 r2 y ne obtain z r3 where r3: "r2 = z # r3" by (cases r2) auto
  from p(1) r1 r2 r3 y have "get_weight G b z \<noteq> None" by simp
  from edges [OF this] ne have "z = a \<or> z = c" by auto
  with p(4) r1 r2 r3 have z: "z = c" by auto
  have "r3 = []"
  proof (cases r3)
    case Nil
    then show ?thesis .
  next
    case (Cons z' r4)
    with p(1) r1 r2 r3 y z have "get_weight G c z' \<noteq> None" by simp
    from edges [OF this] ne have "z' = b" by auto
    with p(4) r1 r2 r3 y Cons show ?thesis by auto
  qed
  with r1 r2 r3 y z show ?thesis by simp
qed

lemma three_indices:
  assumes "A < 3" "B < 3" "C < 3" "A \<noteq> B" "B \<noteq> C" "A \<noteq> C" "i < (3::nat)"
  shows "i = A \<or> i = B \<or> i = C"
  using assms by arith

text \<open>
  C9. The weights of the built graph are not negative. Whatever path
  \<open>find_reliable_path\<close> returns is a walk from \<open>start\<close> to \<open>end\<close> in
  the built graph whose total weight is least among all such walks, and it does return a
  path when both are nodes of the graph and joined by a walk. In a registry of three
  towers \<open>A\<close>, \<open>B\<close>, \<open>C\<close> where \<open>A\<close>, \<open>B\<close> are linked, \<open>B\<close>, \<open>C\<close> are linked and \<open>A\<close>, \<open>C\<close>
  are not, the path from \<open>A\<close> to \<open>C\<close> is \<open>[A, B, C]\<close>, its weight is the sum of the two
  squared distances, and there is no edge between \<open>A\<close> and \<open>C\<close>.
\<close>

theorem find_reliable_path_minimal:
  "nonneg_weights (build_graph (towers c)) \<and>
   (\<forall>p. find_reliable_path c s t = Inr (Some p) \<longrightarrow>
       shortest_walk (build_graph (towers c)) s t p) \<and>
   (has_node (build_graph (towers c)) s \<and> has_node (build_graph (towers c)) t \<and>
    connected (build_graph (towers c)) s t \<longrightarrow>
       (\<exists>p. find_reliable_path c s t = Inr (Some p))) \<and>
   (length (towers c) = 3 \<and> A < 3 \<and> B < 3 \<and> C < 3 \<and> A \<noteq> B \<and> B \<noteq> C \<and> A \<noteq> C \<and>
    linked (towers c) A B \<and> linked (towers c) B C \<and> \<not> linked (towers c) A C \<longrightarrow>
       find_reliable_path c (int A) (int C) = Inr (Some [int A, int B, int C]) \<and>
       walk_weight (build_graph (towers c)) [int A, int B, int C]
         = sqdist (towers c ! A) (towers c ! B) + sqdist (towers c ! B) (towers c ! C) \<and>
       get_weight (build_graph (towers c)) (int A) (int C) = None)"
proof (intro conjI allI impI)
  let ?G = "build_graph (towers c)"
  note cases = find_reliable_path_cases [of c]
  show "nonneg_weights ?G" by (rule build_graph_nonneg)
  show "shortest_walk ?G s t p" if r: "find_reliable_path c s t = Inr (Some p)" for p
  proof -
    from r cases(1) [of s t] have n: "has_node ?G s" "has_node ?G t" by auto
    from r cases(2) [OF n] have "connected ?G s t" by auto
    from cases(3) [OF n this] r show ?thesis by auto
  qed
  show "\<exists>p. find_reliable_path c s t = Inr (Some p)"
    if "has_node ?G s \<and> has_node ?G t \<and> connected ?G s t"
    using that cases(3) [of s t] by blast
next
  let ?G = "build_graph (towers c)"
  let ?ts = "towers c"
  assume h: "length ?ts = 3 \<and> A < 3 \<and> B < 3 \<and> C < 3 \<and> A \<noteq> B \<and> B \<noteq> C \<and> A \<noteq> C \<and>
    linked ?ts A B \<and> linked ?ts B C \<and> \<not> linked ?ts A C"
  then have len: "length ?ts = 3" and lt: "A < 3" "B < 3" "C < 3"
    and ne: "A \<noteq> B" "B \<noteq> C" "A \<noteq> C"
    and l: "linked ?ts A B" "linked ?ts B C" "\<not> linked ?ts A C"
    by simp_all
  have ab: "get_weight ?G (int A) (int B) = Some (sqdist (?ts ! A) (?ts ! B))"
    using len lt ne l(1) by (auto simp: get_weight_build_graph_linked)
  have bc: "get_weight ?G (int B) (int C) = Some (sqdist (?ts ! B) (?ts ! C))"
    using len lt ne l(2) by (auto simp: get_weight_build_graph_linked)
  have cb: "get_weight ?G (int C) (int B) \<noteq> None"
    using len lt ne l(2) linked_sym [of ?ts B C] by (auto simp: get_weight_build_graph_linked)
  show ac: "get_weight ?G (int A) (int C) = None"
    using l(3) by (auto simp: get_weight_build_graph_linked)
  have edges: "(x = int A \<and> y = int B) \<or> (x = int B \<and> y = int A) \<or>
               (x = int B \<and> y = int C) \<or> (x = int C \<and> y = int B)"
    if "get_weight ?G x y \<noteq> None" for x y
  proof -
    from that obtain i j where ij: "i < 3" "j < 3" "i \<noteq> j" "x = int i" "y = int j" "linked ?ts i j"
      unfolding get_weight_build_graph_linked len by (auto split: if_splits)
    from three_indices [OF lt ne ij(1)] three_indices [OF lt ne ij(2)] ij(3,6) l(3)
      linked_sym [of ?ts A C]
    have "(i = A \<and> j = B) \<or> (i = B \<and> j = A) \<or> (i = B \<and> j = C) \<or> (i = C \<and> j = B)"
      by auto
    with ij(4,5) show ?thesis by auto
  qed
  have nA: "has_node ?G (int A)" using ab by (rule get_weight_has_node)
  have nC: "has_node ?G (int C)" using cb by (auto dest: get_weight_has_node)
  have wk: "is_walk ?G [int A, int B, int C]" using ab bc nC by simp
  then have "connected ?G (int A) (int C)"
    unfolding connected_def by (intro exI [of _ "[int A, int B, int C]"]) simp
  from find_reliable_path_cases(3) [OF nA nC this]
  obtain p where p: "find_reliable_path c (int A) (int C) = Inr (Some p)"
    "shortest_walk ?G (int A) (int C) p" "distinct p"
    by blast
  from p(2) have "is_walk ?G p" "hd p = int A" "last p = int C"
    by (simp_all add: shortest_walk_def)
  from chain_walk_unique [of ?G "int A" "int B" "int C" p, OF edges _ _ _ this p(3)] ne
  have "p = [int A, int B, int C]" by simp
  with p(1) show "find_reliable_path c (int A) (int C) = Inr (Some [int A, int B, int C])"
    by simp
  show "walk_weight ?G [int A, int B, int C]
         = sqdist (?ts ! A) (?ts ! B) + sqdist (?ts ! B) (?ts ! C)"
    using ab bc by simp
qed

theorem build_graph_edge_iff_either_range_witness:
  "get_weight (build_graph [(0, 0, 1), (0, 1, 0), (0, 3, 2)]) 0 1 = Some 1 \<and>
   get_weight (build_graph [(0, 0, 1), (0, 1, 0), (0, 3, 2)]) 1 0 = Some 1 \<and>
   get_weight (build_graph [(0, 0, 1), (0, 1, 0), (0, 3, 2)]) 1 2 = Some 4 \<and>
   get_weight (build_graph [(0, 0, 1), (0, 1, 0), (0, 3, 2)]) 0 2 = None \<and>
   get_weight (build_graph [(0, 0, 1), (0, 1, 0), (0, 3, 2)]) 1 1 = None"
proof -
  let ?ts = "[(0, 0, 1), (0, 1, 0), (0, 3, 2)] :: tower list"
  note t = build_graph_edge_iff_either_range [of ?ts]
  from t have e: "\<And>i j. i < length ?ts \<and> j < length ?ts \<and> i \<noteq> j \<Longrightarrow>
      get_weight (build_graph ?ts) (int i) (int j) =
        (if sqdist (?ts ! i) (?ts ! j) \<le> (range_of (?ts ! i))^2 \<or>
            sqdist (?ts ! i) (?ts ! j) \<le> (range_of (?ts ! j))^2
         then Some (sqdist (?ts ! i) (?ts ! j)) else None) \<and>
      get_weight (build_graph ?ts) (int j) (int i) = get_weight (build_graph ?ts) (int i) (int j)"
    by blast
  from t have l: "get_weight (build_graph ?ts) 1 1 = None" by blast
  from e [of 0 1] e [of 1 2] e [of 0 2] l show ?thesis
    by (simp add: sqdist_def range_of_def)
qed

theorem find_reliable_path_minimal_witness:
  "linked [(0, 0, 1), (0, 1, 0), (0, 3, 2)] 0 1 \<and>
   linked [(0, 0, 1), (0, 1, 0), (0, 3, 2)] 1 2 \<and>
   \<not> linked [(0, 0, 1), (0, 1, 0), (0, 3, 2)] 0 2 \<and>
   find_reliable_path \<lparr>n = 1, m = 4, grid = [[True, True, True, True]],
                        towers = [(0, 0, 1), (0, 1, 0), (0, 3, 2)]\<rparr> 0 2
     = Inr (Some [0, 1, 2]) \<and>
   walk_weight (build_graph [(0, 0, 1), (0, 1, 0), (0, 3, 2)]) [0, 1, 2] = 5 \<and>
   shortest_walk (build_graph [(0, 0, 1), (0, 1, 0), (0, 3, 2)]) 0 2 [0, 1, 2]"
proof -
  let ?ts = "[(0, 0, 1), (0, 1, 0), (0, 3, 2)] :: tower list"
  let ?c = "\<lparr>n = 1, m = 4, grid = [[True, True, True, True]], towers = ?ts\<rparr>"
  have l: "linked ?ts 0 1" "linked ?ts 1 2" "\<not> linked ?ts 0 2"
    by (simp_all add: linked_def sqdist_def range_of_def)
  note t = find_reliable_path_minimal [of ?c 0 2 0 1 2]
  from t l have r: "find_reliable_path ?c 0 2 = Inr (Some [0, 1, 2])"
    and w: "walk_weight (build_graph ?ts) [0, 1, 2] = sqdist (?ts ! 0) (?ts ! 1) + sqdist (?ts ! 1) (?ts ! 2)"
    by simp_all
  from t r have "shortest_walk (build_graph ?ts) 0 2 [0, 1, 2]" by simp
  with l r w show ?thesis
    by (simp add: sqdist_def)
qed

text \<open>
  C1 (the code at the example of the claim). On the all-passable \<open>10 \<times> 10\<close> grid the two
  placements succeed; the towers \<open>(3, 4, 2)\<close> and \<open>(7, 5, 3)\<close> are at squared distance 17,
  so no edge is added and the graph has no node at all; the query for \<open>(0, 1)\<close> then ends
  in the library's \<^verbatim>\<open>NodeNotFound\<close>, which the method does not catch, where the claim
  has it return \<^verbatim>\<open>None\<close>.
\<close>

theorem find_reliable_path_no_edge_raises:
  "place_tower \<lparr>n = 10, m = 10, grid = replicate 10 (replicate 10 True), towers = []\<rparr> 3 4 2
     = Inr \<lparr>n = 10, m = 10, grid = replicate 10 (replicate 10 True), towers = [(3, 4, 2)]\<rparr> \<and>
   place_tower \<lparr>n = 10, m = 10, grid = replicate 10 (replicate 10 True), towers = [(3, 4, 2)]\<rparr> 7 5 3
     = Inr \<lparr>n = 10, m = 10, grid = replicate 10 (replicate 10 True),
             towers = [(3, 4, 2), (7, 5, 3)]\<rparr> \<and>
   build_graph [(3, 4, 2), (7, 5, 3)] = [] \<and>
   find_reliable_path \<lparr>n = 10, m = 10, grid = replicate 10 (replicate 10 True),
                        towers = [(3, 4, 2), (7, 5, 3)]\<rparr> 0 1
     = Inl NodeNotFound"
proof -
  have 1: "place_tower \<lparr>n = 10, m = 10, grid = replicate 10 (replicate 10 True), towers = []\<rparr> 3 4 2
     = Inr \<lparr>n = 10, m = 10, grid = replicate 10 (replicate 10 True), towers = [(3, 4, 2)]\<rparr>"
    by code_simp
  have 2: "place_tower \<lparr>n = 10, m = 10, grid = replicate 10 (replicate 10 True), towers = [(3, 4, 2)]\<rparr> 7 5 3
     = Inr \<lparr>n = 10, m = 10, grid = replicate 10 (replicate 10 True),
             towers = [(3, 4, 2), (7, 5, 3)]\<rparr>"
    by code_simp
  have 3: "build_graph [(3, 4, 2), (7, 5, 3)] = []"
    by code_simp
  have 4: "find_reliable_path \<lparr>n = 10, m = 10, grid = replicate 10 (replicate 10 True),
                        towers = [(3, 4, 2), (7, 5, 3)]\<rparr> 0 1
     = Inl NodeNotFound"
    by code_simp
  from 1 2 3 4 show ?thesis by (intro conjI)
qed

text \<open>
  C8 (the code where the claim fails). A tower without any edge is not a node of the
  built graph, so the query from it to itself ends in \<^verbatim>\<open>NodeNotFound\<close>, where the claim
  has it return the one-node path: so for the only tower of a registry, and for tower 1
  of the example of C1.
\<close>

theorem find_reliable_path_isolated_self_raises:
  "build_graph [(0, 0, 1)] = [] \<and>
   find_reliable_path \<lparr>n = 1, m = 1, grid = [[True]], towers = [(0, 0, 1)]\<rparr> 0 0
     = Inl NodeNotFound \<and>
   find_reliable_path \<lparr>n = 10, m = 10, grid = replicate 10 (replicate 10 True),
                        towers = [(3, 4, 2), (7, 5, 3)]\<rparr> 1 1
     = Inl NodeNotFound"
proof -
  have 1: "build_graph [(0, 0, 1)] = []" by code_simp
  have 2: "find_reliable_path \<lparr>n = 1, m = 1, grid = [[True]], towers = [(0, 0, 1)]\<rparr> 0 0
     = Inl NodeNotFound" by code_simp
  have 3: "find_reliable_path \<lparr>n = 10, m = 10, grid = replicate 10 (replicate 10 True),
                        towers = [(3, 4, 2), (7, 5, 3)]\<rparr> 1 1
     = Inl NodeNotFound" by code_simp
  from 1 2 3 show ?thesis by (intro conjI)
qed

lemma find_reliable_path_same_node:
  "find_reliable_path c i i =
     (if has_node (build_graph (towers c)) i then Inr (Some [i]) else Inl NodeNotFound)"
  by (simp add: find_reliable_path_def shortest_path_def bidirectional_dijkstra_def)

text \<open>
  Two paths of the same weight: the towers 0 and 3 are joined through tower 1 (weights 4
  and 1) and through tower 2 (weights 1 and 4). The search from the target reaches
  tower 1 first, in the order of the adjacency dictionary of tower 3, and the later
  meeting at tower 2 is not strictly shorter: the path through tower 1 is returned. In
  the second registry the towers 0 and 1 have changed places, and the path from tower 1 to
  tower 3 goes through tower 0 for the same reason.
\<close>

lemma find_reliable_path_tie:
  "build_graph [(0, 0, 2), (0, 2, 2), (1, 0, 2), (1, 2, 2)]
     = [(0, [(1, 4), (2, 1)]), (1, [(0, 4), (3, 1)]), (2, [(0, 1), (3, 4)]), (3, [(1, 1), (2, 4)])] \<and>
   find_reliable_path \<lparr>n = 2, m = 3, grid = replicate 2 (replicate 3 True),
                        towers = [(0, 0, 2), (0, 2, 2), (1, 0, 2), (1, 2, 2)]\<rparr> 0 3
     = Inr (Some [0, 1, 3]) \<and>
   build_graph [(0, 2, 2), (0, 0, 2), (1, 0, 2), (1, 2, 2)]
     = [(0, [(1, 4), (3, 1)]), (1, [(0, 4), (2, 1)]), (3, [(0, 1), (2, 4)]), (2, [(1, 1), (3, 4)])] \<and>
   find_reliable_path \<lparr>n = 2, m = 3, grid = replicate 2 (replicate 3 True),
                        towers = [(0, 2, 2), (0, 0, 2), (1, 0, 2), (1, 2, 2)]\<rparr> 1 3
     = Inr (Some [1, 0, 3])"
proof -
  have 1: "build_graph [(0, 0, 2), (0, 2, 2), (1, 0, 2), (1, 2, 2)]
     = [(0, [(1, 4), (2, 1)]), (1, [(0, 4), (3, 1)]), (2, [(0, 1), (3, 4)]), (3, [(1, 1), (2, 4)])]"
    by code_simp
  have 2: "find_reliable_path \<lparr>n = 2, m = 3, grid = replicate 2 (replicate 3 True),
                        towers = [(0, 0, 2), (0, 2, 2), (1, 0, 2), (1, 2, 2)]\<rparr> 0 3
     = Inr (Some [0, 1, 3])"
    by code_simp
  have 3: "build_graph [(0, 2, 2), (0, 0, 2), (1, 0, 2), (1, 2, 2)]
     = [(0, [(1, 4), (3, 1)]), (1, [(0, 4), (2, 1)]), (3, [(0, 1), (2, 4)]), (2, [(1, 1), (3, 4)])]"
    by code_simp
  have 4: "find_reliable_path \<lparr>n = 2, m = 3, grid = replicate 2 (replicate 3 True),
                        towers = [(0, 2, 2), (0, 0, 2), (1, 0, 2), (1, 2, 2)]\<rparr> 1 3
     = Inr (Some [1, 0, 3])"
    by code_simp
  from 1 2 3 4 show ?thesis by (intro conjI)
qed

end
